theory Spec2Isabelle
  imports Complex_Main "HOL-Library.Sublist" "HOL-Library.Multiset"
begin

section \<open>Text prediction: numeric transforms, decoding loop, conversation\<close>

text \<open>
  The development embeds the generation code of the notebook
  \<^verbatim>\<open>notebooks/223-text-prediction/223-text-prediction.ipynb\<close>:
  \<^verbatim>\<open>softmax\<close>, \<^verbatim>\<open>process_logits\<close>, \<^verbatim>\<open>get_top_k_logits\<close>,
  \<^verbatim>\<open>generate_sequence\<close>, \<^verbatim>\<open>converse\<close> and \<^verbatim>\<open>Conversation.chat\<close>.

  Conventions of the embedding.
  \<^item> Every array of the source that carries a batch axis has batch extent 1 (the
    tokenizer returns shape \<open>(1, n)\<close>, the loop reads \<^verbatim>\<open>input_ids[0]\<close> and
    \<^verbatim>\<open>probs[0]\<close>, and \<^verbatim>\<open>np.concatenate((input_ids, [next_tokens]), axis=-1)\<close>
    only accepts one row). Such an array is modelled by its only row.
  \<^item> Token ids are vocabulary indices, hence natural numbers; lengths and the
    configuration values are Python integers, hence \<open>int\<close>.
  \<^item> A score is a floating-point number that is not NaN, ordered as numpy orders
    it: a real number or one of the two infinities. Arithmetic on the finite part is
    exact real arithmetic; rounding is not modelled.
  \<^item> Python exceptions are values of type \<open>error\<close>; a function that can raise
    returns \<open>error + 'a\<close>.
\<close>

subsection \<open>Scores\<close>

datatype score = NegInf | Fin real | PosInf

datatype error = IndexError | ValueError | InferenceFailure

instantiation score :: linorder
begin

fun less_eq_score :: "score \<Rightarrow> score \<Rightarrow> bool" where
  "less_eq_score NegInf y = True"
| "less_eq_score (Fin a) NegInf = False"
| "less_eq_score (Fin a) (Fin b) = (a \<le> b)"
| "less_eq_score (Fin a) PosInf = True"
| "less_eq_score PosInf NegInf = False"
| "less_eq_score PosInf (Fin b) = False"
| "less_eq_score PosInf PosInf = True"

definition less_score :: "score \<Rightarrow> score \<Rightarrow> bool" where
  "less_score x y = (x \<le> y \<and> \<not> y \<le> x)"

instance
proof
  fix x y z :: score
  show "(x < y) = (x \<le> y \<and> \<not> y \<le> x)"
    by (simp add: less_score_def)
  show "x \<le> x"
    by (cases x) simp_all
  show "x \<le> y \<Longrightarrow> y \<le> z \<Longrightarrow> x \<le> z"
    by (cases x; cases y; cases z) simp_all
  show "x \<le> y \<Longrightarrow> y \<le> x \<Longrightarrow> x = y"
    by (cases x; cases y) simp_all
  show "x \<le> y \<or> y \<le> x"
    by (cases x; cases y) auto
qed

end

text \<open>Unary minus of the source (\<^verbatim>\<open>-scores\<close>): it swaps the infinities.\<close>

fun neg :: "score \<Rightarrow> score" where
  "neg NegInf = PosInf"
| "neg (Fin a) = Fin (- a)"
| "neg PosInf = NegInf"

subsection \<open>Minimum-length suppression\<close>

text \<open>
  \<^verbatim>\<open>
  def process_logits(cur_length, scores, eos_token_id, min_length=0):
      if cur_length < min_length:
          scores[:, eos_token_id] = -float("inf")
      return scores
  \<close>
  The assignment raises \<^verbatim>\<open>IndexError\<close> when the column does not exist.
\<close>

definition process_logits :: "int \<Rightarrow> score list \<Rightarrow> nat \<Rightarrow> int \<Rightarrow> error + score list" where
  "process_logits cur_length scores eos_token_id min_length =
     (if cur_length < min_length
      then (if eos_token_id < length scores
            then Inr (scores[eos_token_id := NegInf])
            else Inl IndexError)
      else Inr scores)"

subsection \<open>Top-k filtering\<close>

text \<open>
  \<^verbatim>\<open>
  def get_top_k_logits(scores, top_k):
      filter_value = -float("inf")
      top_k = min(max(top_k, 1), scores.shape[-1])
      top_k_scores = -np.sort(-scores)[:, :top_k]
      indices_to_remove = scores < np.min(top_k_scores)
      filtred_scores = np.ma.array(scores, mask=indices_to_remove,
                                   fill_value=filter_value).filled()
      return filtred_scores
  \<close>
  \<^verbatim>\<open>np.min\<close> of an array without elements raises \<^verbatim>\<open>ValueError\<close>; this is
  what happens on a row of length 0, where the clamped \<open>top_k\<close> is 0.
\<close>

definition get_top_k_logits :: "score list \<Rightarrow> int \<Rightarrow> error + score list" where
  "get_top_k_logits scores top_k =
     (let filter_value = NegInf;
          top_k = min (max top_k 1) (int (length scores));
          top_k_scores = take (nat top_k) (map neg (sort (map neg scores)))
      in if top_k_scores = [] then Inl ValueError
         else Inr (map (\<lambda>s. if s < min_list top_k_scores then filter_value else s) scores))"

text \<open>
  The claim about \<^verbatim>\<open>get_top_k_logits\<close> speaks of "the k-th highest score". That notion
  is defined here from the words alone, without sorting: \<open>t\<close> is the k-th highest
  score of a row when it occurs in the row, fewer than \<open>k\<close> entries lie strictly above
  it, and at least \<open>k\<close> entries lie at or above it.
\<close>

definition is_kth_highest :: "score list \<Rightarrow> nat \<Rightarrow> score \<Rightarrow> bool" where
  "is_kth_highest xs k t =
     (t \<in> set xs \<and> length (filter (\<lambda>x. t < x) xs) < k \<and> k \<le> length (filter (\<lambda>x. t \<le> x) xs))"

subsection \<open>Softmax\<close>

text \<open>
  \<^verbatim>\<open>
  def softmax(x):
      e_x = np.exp(x - np.max(x, axis=-1, keepdims=True))
      summation = e_x.sum(axis=-1, keepdims=True)
      return e_x / summation
  \<close>
  The subtraction can produce NaN (\<open>inf - inf\<close>), so the results live in \<open>flt\<close>: a
  score or NaN. The four operations follow IEEE 754 on the infinities and NaN and
  are exact on the reals (no rounding, no overflow, no signed zero).
  \<^verbatim>\<open>np.max\<close> of a row of length 0 raises \<^verbatim>\<open>ValueError\<close>.
\<close>

datatype flt = NaN | Num score

fun fsub :: "score \<Rightarrow> score \<Rightarrow> flt" where
  "fsub (Fin a) (Fin b) = Num (Fin (a - b))"
| "fsub (Fin a) NegInf = Num PosInf"
| "fsub (Fin a) PosInf = Num NegInf"
| "fsub NegInf NegInf = NaN"
| "fsub NegInf (Fin b) = Num NegInf"
| "fsub NegInf PosInf = Num NegInf"
| "fsub PosInf PosInf = NaN"
| "fsub PosInf (Fin b) = Num PosInf"
| "fsub PosInf NegInf = Num PosInf"

fun fexp :: "flt \<Rightarrow> flt" where
  "fexp NaN = NaN"
| "fexp (Num NegInf) = Num (Fin 0)"
| "fexp (Num (Fin a)) = Num (Fin (exp a))"
| "fexp (Num PosInf) = Num PosInf"

fun fadd :: "flt \<Rightarrow> flt \<Rightarrow> flt" where
  "fadd NaN y = NaN"
| "fadd (Num x) NaN = NaN"
| "fadd (Num (Fin a)) (Num (Fin b)) = Num (Fin (a + b))"
| "fadd (Num (Fin a)) (Num NegInf) = Num NegInf"
| "fadd (Num (Fin a)) (Num PosInf) = Num PosInf"
| "fadd (Num NegInf) (Num PosInf) = NaN"
| "fadd (Num NegInf) (Num y) = Num NegInf"
| "fadd (Num PosInf) (Num NegInf) = NaN"
| "fadd (Num PosInf) (Num y) = Num PosInf"

fun fdiv :: "flt \<Rightarrow> flt \<Rightarrow> flt" where
  "fdiv NaN y = NaN"
| "fdiv (Num x) NaN = NaN"
| "fdiv (Num (Fin a)) (Num (Fin b)) =
     (if b \<noteq> 0 then Num (Fin (a / b))
      else if a = 0 then NaN else if 0 < a then Num PosInf else Num NegInf)"
| "fdiv (Num (Fin a)) (Num y) = Num (Fin 0)"
| "fdiv (Num x) (Num (Fin b)) = (if (x = PosInf) = (0 \<le> b) then Num PosInf else Num NegInf)"
| "fdiv (Num x) (Num y) = NaN"

fun max_list :: "score list \<Rightarrow> score" where
  "max_list (x # xs) = (case xs of [] \<Rightarrow> x | _ \<Rightarrow> max x (max_list xs))"

definition softmax :: "score list \<Rightarrow> error + flt list" where
  "softmax x =
     (if x = [] then Inl ValueError
      else
        let e_x = map (\<lambda>s. fexp (fsub s (max_list x))) x;
            summation = foldr fadd e_x (Num (Fin 0))
        in Inr (map (\<lambda>e. fdiv e summation) e_x))"


subsection \<open>The environment of the notebook\<close>

text \<open>
  The code reaches its collaborators through global names. They are the fields of
  the environment:
  \<^item> \<open>compiled_model\<close>: the call \<^verbatim>\<open>compiled_model({...})[output_key]\<close> on the
    ids and the attention mask; it returns the logits, one row of vocabulary scores
    per sequence position, or fails;
  \<^item> \<open>np_random_choice\<close>: \<^verbatim>\<open>np.random.choice(n, 1, p=p, replace=True)\<close> on the
    state \<open>'g\<close> of the process-wide random source; it returns the drawn index and
    the next state, or raises (numpy rejects an invalid \<open>p\<close>);
  \<^item> \<open>tokenize\<close>: the ids of \<^verbatim>\<open>tokenizer(text, return_tensors="np")\<close>;
  \<^item> \<open>decode\<close>: the text of one token id, which is what
    \<^verbatim>\<open>tokenizer.batch_decode\<close> yields for each element of a one-dimensional array;
  \<^item> \<open>tokenizer_eos_token_id\<close>: \<^verbatim>\<open>tokenizer.eos_token_id\<close>.
\<close>

record 'g env =
  compiled_model :: "nat list \<Rightarrow> nat list \<Rightarrow> error + score list list"
  np_random_choice :: "'g \<Rightarrow> nat \<Rightarrow> flt list \<Rightarrow> error + nat \<times> 'g"
  tokenize :: "string \<Rightarrow> nat list"
  decode :: "nat \<Rightarrow> string"
  tokenizer_eos_token_id :: nat

text \<open>
  \<^verbatim>\<open>
  eos_token_id = tokenizer.eos_token_id
  eos_token = tokenizer.decode(eos_token_id)
  \<close>
\<close>

definition global_eos_token_id :: "'g env \<Rightarrow> nat" where
  "global_eos_token_id E = tokenizer_eos_token_id E"

definition global_eos_token :: "'g env \<Rightarrow> string" where
  "global_eos_token E = decode E (global_eos_token_id E)"

subsection \<open>Python helpers\<close>

text \<open>Sequencing of computations that may raise.\<close>

definition ebind :: "error + 'a \<Rightarrow> ('a \<Rightarrow> error + 'b) \<Rightarrow> error + 'b" where
  "ebind m f = (case m of Inl e \<Rightarrow> Inl e | Inr x \<Rightarrow> f x)"

text \<open>\<^verbatim>\<open>xs[i]\<close>: a negative index counts from the end; out of range raises.\<close>

definition py_nth :: "'a list \<Rightarrow> int \<Rightarrow> error + 'a" where
  "py_nth xs i =
     (if 0 \<le> i \<and> i < int (length xs) then Inr (xs ! nat i)
      else if i < 0 \<and> - int (length xs) \<le> i then Inr (xs ! nat (int (length xs) + i))
      else Inl IndexError)"

text \<open>
  \<^verbatim>\<open>s.split(sep)\<close>: the occurrences of \<open>sep\<close> are found from left to right, each
  search starting behind the previous occurrence; the pieces between them are
  returned, empty pieces included. An empty separator raises \<^verbatim>\<open>ValueError\<close>.
\<close>

function split_from :: "string \<Rightarrow> string \<Rightarrow> string \<Rightarrow> string list" where
  "split_from sep cur s =
     (if s = [] then [cur]
      else if sep \<noteq> [] \<and> prefix sep s then cur # split_from sep [] (drop (length sep) s)
      else split_from sep (cur @ [hd s]) (tl s))"
  by pat_completeness auto
termination
  by (relation "measure (\<lambda>(sep, cur, s). length s)") auto

declare split_from.simps [simp del]

definition py_split :: "string \<Rightarrow> string \<Rightarrow> error + string list" where
  "py_split s sep = (if sep = [] then Inl ValueError else Inr (split_from sep [] s))"

subsection \<open>The decoding loop\<close>

text \<open>
  \<^verbatim>\<open>
  def generate_sequence(input_ids, attention_mask, max_sequence_length=128,
                        eos_token_id=eos_token_id, dynamic_shapes=True):
      while True:
          cur_input_len = len(input_ids[0])
          if not dynamic_shapes:
              pad_len = max_sequence_length - cur_input_len
              model_input_ids = np.concatenate((input_ids, [[eos_token_id] * pad_len]), axis=-1)
              model_input_attention_mask = np.concatenate((attention_mask, [[0] * pad_len]), axis=-1)
          else:
              model_input_ids = input_ids
              model_input_attention_mask = attention_mask
          outputs = compiled_model({"input_ids": model_input_ids,
                                    "attention_mask": model_input_attention_mask})[output_key]
          next_token_logits = outputs[:, cur_input_len - 1, :]
          next_token_scores = process_logits(cur_input_len, next_token_logits, eos_token_id)
          top_k = 20
          next_token_scores = get_top_k_logits(next_token_scores, top_k)
          probs = softmax(next_token_scores)
          next_tokens = np.random.choice(probs.shape[-1], 1, p=probs[0], replace=True)
          if cur_input_len == max_sequence_length or next_tokens[0] == eos_token_id:
              break
          else:
              input_ids = np.concatenate((input_ids, [next_tokens]), axis=-1)
              attention_mask = np.concatenate((attention_mask, [[1] * len(next_tokens)]), axis=-1)
      return input_ids
  \<close>
  \<open>next_tokens\<close> is the body of the loop up to the draw: it returns the drawn token
  and the next state of the random source. \<^verbatim>\<open>[x] * n\<close> is the empty list for
  \<open>n \<le> 0\<close>. \<^verbatim>\<open>process_logits\<close> is called without \<open>min_length\<close>, hence with its
  default 0.
\<close>

definition next_tokens ::
  "'g env \<Rightarrow> 'g \<Rightarrow> nat list \<Rightarrow> nat list \<Rightarrow> int \<Rightarrow> nat \<Rightarrow> bool \<Rightarrow> error + nat \<times> 'g" where
  "next_tokens E g input_ids attention_mask max_sequence_length eos_token_id dynamic_shapes =
     (let cur_input_len = int (length input_ids);
          pad_len = max_sequence_length - cur_input_len;
          model_input_ids =
            (if \<not> dynamic_shapes then input_ids @ replicate (nat pad_len) eos_token_id
             else input_ids);
          model_input_attention_mask =
            (if \<not> dynamic_shapes then attention_mask @ replicate (nat pad_len) 0
             else attention_mask)
      in ebind (compiled_model E model_input_ids model_input_attention_mask) (\<lambda>outputs.
         ebind (py_nth outputs (cur_input_len - 1)) (\<lambda>next_token_logits.
         ebind (process_logits cur_input_len next_token_logits eos_token_id 0) (\<lambda>next_token_scores.
         ebind (get_top_k_logits next_token_scores 20) (\<lambda>next_token_scores.
         ebind (softmax next_token_scores) (\<lambda>probs.
         np_random_choice E g (length probs) probs))))))"

text \<open>
  The loop has no bound of its own, so the embedding counts iterations: with fuel
  \<open>n\<close> the loop may begin at most \<open>n\<close> iterations, and \<open>None\<close> says that it was still
  running when the fuel ran out. The loop returns when some fuel gives \<open>Some\<close>, and
  runs forever when every fuel gives \<open>None\<close>. A result is \<open>Inl\<close> of the exception
  that left the loop, or \<open>Inr\<close> of the returned ids with the state of the random
  source.
\<close>

fun generate_sequence ::
  "nat \<Rightarrow> 'g env \<Rightarrow> 'g \<Rightarrow> nat list \<Rightarrow> nat list \<Rightarrow> int \<Rightarrow> nat \<Rightarrow> bool
     \<Rightarrow> (error + nat list \<times> 'g) option" where
  "generate_sequence 0 E g input_ids attention_mask max_sequence_length eos_token_id dynamic_shapes =
     None"
| "generate_sequence (Suc n) E g input_ids attention_mask max_sequence_length eos_token_id dynamic_shapes =
     (case next_tokens E g input_ids attention_mask max_sequence_length eos_token_id dynamic_shapes of
        Inl e \<Rightarrow> Some (Inl e)
      | Inr (tok, g') \<Rightarrow>
          if int (length input_ids) = max_sequence_length \<or> tok = eos_token_id
          then Some (Inr (input_ids, g'))
          else generate_sequence n E g' (input_ids @ [tok]) (attention_mask @ [1])
                 max_sequence_length eos_token_id dynamic_shapes)"

subsection \<open>Conversation\<close>

text \<open>
  \<^verbatim>\<open>
  def converse(input, history, eos_token=eos_token, eos_token_id=eos_token_id):
      new_user_input_ids, _ = tokenize(input + eos_token)
      if len(history) == 0:
          bot_input_ids = new_user_input_ids
      else:
          bot_input_ids = np.concatenate([history, new_user_input_ids[0]])
          bot_input_ids = np.expand_dims(bot_input_ids, axis=0)
      bot_attention_mask = np.ones_like(bot_input_ids)
      history = generate_sequence(bot_input_ids, bot_attention_mask, max_sequence_length=1000)
      history = np.append(history[0], eos_token_id)
      response = ''.join(tokenizer.batch_decode(history)).split(eos_token)[-2]
      return response, history
  \<close>
  The call of \<^verbatim>\<open>generate_sequence\<close> leaves \<open>eos_token_id\<close> and \<open>dynamic_shapes\<close> to
  their defaults: the global eos id (not the parameter of \<^verbatim>\<open>converse\<close>) and \<open>True\<close>.
\<close>

definition converse ::
  "nat \<Rightarrow> 'g env \<Rightarrow> 'g \<Rightarrow> string \<Rightarrow> nat list \<Rightarrow> string \<Rightarrow> nat
     \<Rightarrow> (error + (string \<times> nat list) \<times> 'g) option" where
  "converse fuel E g input history eos_token eos_token_id =
     (let new_user_input_ids = tokenize E (input @ eos_token);
          bot_input_ids =
            (if length history = 0 then new_user_input_ids else history @ new_user_input_ids);
          bot_attention_mask = map (\<lambda>_. 1) bot_input_ids
      in case generate_sequence fuel E g bot_input_ids bot_attention_mask 1000
                (global_eos_token_id E) True of
           None \<Rightarrow> None
         | Some (Inl e) \<Rightarrow> Some (Inl e)
         | Some (Inr (history, g')) \<Rightarrow>
             (let history = history @ [eos_token_id]
              in Some (ebind (py_split (concat (map (decode E) history)) eos_token) (\<lambda>segments.
                       ebind (py_nth segments (- 2)) (\<lambda>response.
                       Inr ((response, history), g'))))))"

text \<open>
  \<^verbatim>\<open>
  class Conversation:
      def __init__(self):
          self.history = []
          self.messages = []
      def chat(self, input_text):
          response, self.history = converse(input_text, self.history)
          self.messages.append(f"Person: {input_text}")
          self.messages.append(f"PersonaGPT: {response}")
          return response
  \<close>
\<close>

record conversation =
  self_history :: "nat list"
  self_messages :: "string list"

definition init :: conversation where
  "init = \<lparr>self_history = [], self_messages = []\<rparr>"

definition chat ::
  "nat \<Rightarrow> 'g env \<Rightarrow> 'g \<Rightarrow> conversation \<Rightarrow> string
     \<Rightarrow> (error + (string \<times> conversation) \<times> 'g) option" where
  "chat fuel E g self input_text =
     (case converse fuel E g input_text (self_history self) (global_eos_token E)
             (global_eos_token_id E) of
        None \<Rightarrow> None
      | Some (Inl e) \<Rightarrow> Some (Inl e)
      | Some (Inr ((response, history), g')) \<Rightarrow>
          Some (Inr ((response,
            self\<lparr>self_history := history,
                 self_messages := self_messages self @
                   [''Person: '' @ input_text, ''PersonaGPT: '' @ response]\<rparr>), g')))"

text \<open>
  Notions the claims about \<^verbatim>\<open>converse\<close> use. A string is unbordered when none of
  its proper non-empty prefixes is also a suffix, so that two occurrences of it
  cannot overlap; \<^verbatim>\<open><|endoftext|>\<close>, the eos string of the GPT-2 tokenizers, is
  unbordered. \<open>trailing_count\<close> counts the copies of a token at the end of a
  sequence. \<open>second_to_last_nonempty_segment\<close> reads claim C4 word by word: the
  pieces of the split that are not empty, and of these the second-to-last.
\<close>

definition unbordered :: "string \<Rightarrow> bool" where
  "unbordered s = list_all (\<lambda>n. take n s \<noteq> drop (length s - n) s) [1..<length s]"

definition trailing_count :: "nat \<Rightarrow> nat list \<Rightarrow> nat" where
  "trailing_count t ids = length (takeWhile (\<lambda>x. x = t) (rev ids))"

definition second_to_last_nonempty_segment :: "string \<Rightarrow> string \<Rightarrow> error + string" where
  "second_to_last_nonempty_segment s sep =
     ebind (py_split s sep) (\<lambda>segments. py_nth (filter (\<lambda>seg. seg \<noteq> []) segments) (- 2))"

subsection \<open>Stub environments\<close>

text \<open>
  Concrete environments on which the definitions are run: a model that returns the
  same row of eight scores at every position, a random source that is a script of
  draws (or one constant draw), and a tokenizer with a handful of tokens.
\<close>

definition stub_row :: "score list" where
  "stub_row = [Fin 0, Fin 2, Fin 1, Fin 0, Fin 0, Fin 0, Fin 0, Fin 9]"

definition stub_model :: "nat list \<Rightarrow> nat list \<Rightarrow> error + score list list" where
  "stub_model ids attention_mask = Inr (map (\<lambda>_. stub_row) ids)"

definition stub_decode :: "nat \<Rightarrow> string" where
  "stub_decode t =
     (if t = 0 then ''<|endoftext|>'' else if t = 1 then ''hi'' else if t = 2 then ''yo''
      else if t = 3 then ''aa'' else if t = 4 then ''a'' else ''x'')"

definition stub_tokenize :: "string \<Rightarrow> nat list" where
  "stub_tokenize s =
     (if s = ''hi<|endoftext|>'' then [1, 0] else if s = ''xaa'' then [5, 3] else [5])"

definition scripted_env :: "(nat list) env" where
  "scripted_env =
     \<lparr>compiled_model = stub_model,
      np_random_choice = (\<lambda>g n p. case g of [] \<Rightarrow> Inl ValueError | t # g' \<Rightarrow> Inr (t, g')),
      tokenize = stub_tokenize, decode = stub_decode, tokenizer_eos_token_id = 0\<rparr>"

definition constant_env :: "nat \<Rightarrow> unit env" where
  "constant_env t =
     \<lparr>compiled_model = stub_model,
      np_random_choice = (\<lambda>g n p. Inr (t, g)),
      tokenize = stub_tokenize, decode = stub_decode, tokenizer_eos_token_id = 0\<rparr>"

definition failing_env :: "unit env" where
  "failing_env = (constant_env 7)\<lparr>compiled_model := (\<lambda>ids am. Inl InferenceFailure)\<rparr>"

definition bordered_env :: "(nat list) env" where
  "bordered_env = scripted_env\<lparr>tokenizer_eos_token_id := 3\<rparr>"

section \<open>Properties of the numeric transforms\<close>

subsection \<open>Sorting in descending order\<close>

lemma neg_neg: "neg (neg x) = x"
  by (cases x) simp_all

lemma neg_le_iff: "neg x \<le> neg y \<longleftrightarrow> y \<le> x"
  by (cases x; cases y) simp_all

lemma desc_sort: "map neg (sort (map neg xs)) = rev (sort xs)"
proof -
  let ?zs = "rev (map neg (sort (map neg xs)))"
  have m: "mset ?zs = mset xs"
    by (simp add: multiset.map_comp comp_def neg_neg)
  have "sorted_wrt (\<lambda>x y. y \<le> x) (map neg (sort (map neg xs)))"
    unfolding sorted_wrt_map neg_le_iff by simp
  then have s: "sorted ?zs"
    by (simp add: sorted_wrt_rev)
  have "sort xs = ?zs"
    using m s by (metis properties_for_sort)
  then show ?thesis
    by (metis rev_rev_ident)
qed


lemma min_take_desc:
  assumes "sorted (rev ys)" "0 < k" "k \<le> length ys"
  shows "min_list (take k ys) = ys ! (k - 1)"
proof -
  have ne: "take k ys \<noteq> []" using assms by auto
  have mem: "ys ! (k - 1) \<in> set (take k ys)"
    using assms by (metis One_nat_def diff_less in_set_conv_nth length_take less_numeral_extra(1) min.absorb2 nth_take)
  have low: "\<And>y. y \<in> set (take k ys) \<Longrightarrow> ys ! (k - 1) \<le> y"
  proof -
    fix y assume "y \<in> set (take k ys)"
    then obtain i where i: "i < k" "y = ys ! i"
      using assms by (auto simp: in_set_conv_nth)
    then show "ys ! (k - 1) \<le> y"
      using sorted_rev_nth_mono[OF assms(1), of i "k - 1"] assms by auto
  qed
  show ?thesis
    unfolding min_list_Min[OF ne] by (rule Min_eqI) (use mem low in auto)
qed


lemma count_above_desc:
  assumes "sorted (rev ys)" "0 < k" "k \<le> length ys"
  shows "length (filter (\<lambda>x. ys ! (k - 1) < x) ys) < k"
proof -
  let ?t = "ys ! (k - 1)"
  have "\<And>y. y \<in> set (drop (k - 1) ys) \<Longrightarrow> \<not> ?t < y"
  proof -
    fix y assume "y \<in> set (drop (k - 1) ys)"
    then obtain i where i: "i < length ys - (k - 1)" "y = ys ! (k - 1 + i)"
      by (auto simp: in_set_conv_nth)
    then have "y \<le> ?t"
      using sorted_rev_nth_mono[OF assms(1), of "k - 1" "k - 1 + i"] by auto
    then show "\<not> ?t < y" by auto
  qed
  then have "filter (\<lambda>x. ?t < x) (drop (k - 1) ys) = []"
    by (simp add: filter_empty_conv)
  then have "filter (\<lambda>x. ?t < x) ys = filter (\<lambda>x. ?t < x) (take (k - 1) ys)"
    by (metis append_Nil2 append_take_drop_id filter_append)
  moreover have "length (filter (\<lambda>x. ?t < x) (take (k - 1) ys)) \<le> k - 1"
    by (metis length_filter_le length_take min.cobounded2 order_trans)
  ultimately show ?thesis using assms by simp
qed

lemma count_at_least_desc:
  assumes "sorted (rev ys)" "0 < k" "k \<le> length ys"
  shows "k \<le> length (filter (\<lambda>x. ys ! (k - 1) \<le> x) ys)"
proof -
  let ?t = "ys ! (k - 1)"
  have "\<And>y. y \<in> set (take k ys) \<Longrightarrow> ?t \<le> y"
  proof -
    fix y assume "y \<in> set (take k ys)"
    then obtain i where i: "i < k" "y = ys ! i"
      using assms by (auto simp: in_set_conv_nth)
    then show "?t \<le> y"
      using sorted_rev_nth_mono[OF assms(1), of i "k - 1"] assms by auto
  qed
  then have "filter (\<lambda>x. ?t \<le> x) (take k ys) = take k ys"
    by (simp add: filter_id_conv)
  then have "length (filter (\<lambda>x. ?t \<le> x) (take k ys @ drop k ys)) \<ge> k"
    using assms by (simp del: append_take_drop_id)
  then show ?thesis by simp
qed

lemma length_filter_mset_eq:
  "mset xs = mset ys \<Longrightarrow> length (filter P xs) = length (filter P ys)"
  by (metis mset_filter size_mset)

lemma kth_highest_desc_sort:
  assumes "0 < k" "k \<le> length xs"
  shows "is_kth_highest xs k (rev (sort xs) ! (k - 1))"
proof -
  let ?ys = "rev (sort xs)"
  have s: "sorted (rev ?ys)" by simp
  have l: "k \<le> length ?ys" using assms by simp
  have m: "mset ?ys = mset xs" by simp
  have "?ys ! (k - 1) \<in> set ?ys"
    using assms by (intro nth_mem) simp
  then have mem: "?ys ! (k - 1) \<in> set xs" by simp
  show ?thesis
    unfolding is_kth_highest_def
    using mem count_above_desc[OF s assms(1) l] count_at_least_desc[OF s assms(1) l]
      length_filter_mset_eq[OF m] by metis
qed

lemma is_kth_highest_unique:
  assumes "is_kth_highest xs k t" "is_kth_highest xs k u"
  shows "t = u"
proof (rule ccontr)
  assume "t \<noteq> u"
  then consider "t < u" | "u < t" by fastforce
  then show False
  proof cases
    case 1
    then have "\<And>x. u \<le> x \<Longrightarrow> t < x" by auto
    then have "length (filter (\<lambda>x. u \<le> x) xs) \<le> length (filter (\<lambda>x. t < x) xs)"
      by (metis (mono_tags, lifting) filter_filter filter_cong length_filter_le)
    then show False using assms unfolding is_kth_highest_def by linarith
  next
    case 2
    then have "\<And>x. t \<le> x \<Longrightarrow> u < x" by auto
    then have "length (filter (\<lambda>x. t \<le> x) xs) \<le> length (filter (\<lambda>x. u < x) xs)"
      by (metis (mono_tags, lifting) filter_filter filter_cong length_filter_le)
    then show False using assms unfolding is_kth_highest_def by linarith
  qed
qed

lemma get_top_k_logits_threshold:
  assumes "scores \<noteq> []"
  shows "get_top_k_logits scores top_k =
     Inr (map (\<lambda>s. if s < rev (sort scores) ! (nat (min (max top_k 1) (int (length scores))) - 1)
                     then NegInf else s) scores)"
proof -
  let ?k = "nat (min (max top_k 1) (int (length scores)))"
  have "0 < length scores" using assms by simp
  then have k: "0 < ?k" "?k \<le> length scores" by linarith+
  have "length (take ?k (rev (sort scores))) = ?k" using k by simp
  then have ne: "take ?k (rev (sort scores)) \<noteq> []" using k(1) by (metis length_0_conv less_numeral_extra(3))
  have "min_list (take ?k (rev (sort scores))) = rev (sort scores) ! (?k - 1)"
    using k by (intro min_take_desc) simp_all
  then show ?thesis
    using ne by (simp add: get_top_k_logits_def Let_def desc_sort)
qed

lemma max_is_first_highest:
  assumes "is_kth_highest xs 1 t"
  shows "t = Max (set xs)"
proof -
  have mem: "t \<in> set xs" using assms by (simp add: is_kth_highest_def)
  have "filter (\<lambda>x. t < x) xs = []" using assms by (simp add: is_kth_highest_def)
  then have "\<forall>x\<in>set xs. x \<le> t" by (auto simp: filter_empty_conv not_less)
  then show ?thesis using mem by (intro Max_eqI[symmetric]) auto
qed

lemma all_above_last_highest:
  assumes "is_kth_highest xs (length xs) t" "x \<in> set xs"
  shows "\<not> x < t"
proof -
  have "length xs \<le> length (filter (\<lambda>x. t \<le> x) xs)" using assms by (simp add: is_kth_highest_def)
  then have "length (filter (\<lambda>x. t \<le> x) xs) = length xs"
    using length_filter_le[of "\<lambda>x. t \<le> x" xs] by linarith
  then have "\<forall>x\<in>set xs. t \<le> x" by (metis filter_id_conv length_filter_less less_irrefl not_le_imp_less  order_refl)
  then show ?thesis using assms(2) by auto
qed

subsection \<open>Minimum-length suppression\<close>

text \<open>
  Claim C6. For a scores row, an eos id that indexes the row, and any \<open>cur_length\<close>
  and \<open>min_length\<close>: when \<open>cur_length < min_length\<close>, \<^verbatim>\<open>process_logits\<close> returns the
  row with negative infinity at the eos index and every other entry unchanged; when
  \<open>cur_length \<ge> min_length\<close>, it returns the row unchanged.
\<close>

theorem process_logits_suppresses_eos:
  assumes "eos_token_id < length scores"
  shows "\<exists>out. process_logits cur_length scores eos_token_id min_length = Inr out \<and>
           length out = length scores \<and>
           (if cur_length < min_length
            then out ! eos_token_id = NegInf \<and>
                 (\<forall>i. i < length scores \<and> i \<noteq> eos_token_id \<longrightarrow> out ! i = scores ! i)
            else out = scores)"
  using assms by (simp add: process_logits_def)

theorem process_logits_suppresses_eos_witness:
  "(1::nat) < length [Fin 1, Fin 5, Fin 3] \<and>
   (\<exists>out. process_logits 2 [Fin 1, Fin 5, Fin 3] 1 4 = Inr out \<and> out = [Fin 1, NegInf, Fin 3]) \<and>
   (\<exists>out. process_logits 4 [Fin 1, Fin 5, Fin 3] 1 4 = Inr out \<and> out = [Fin 1, Fin 5, Fin 3])"
  using process_logits_suppresses_eos [of 1 "[Fin 1, Fin 5, Fin 3]" 2 4]
    process_logits_suppresses_eos [of 1 "[Fin 1, Fin 5, Fin 3]" 4 4]
  by (simp add: process_logits_def)

subsection \<open>Top-k filtering\<close>

text \<open>
  Claim C3. For a non-empty scores row of length \<open>N\<close> and every integer \<open>top_k\<close>,
  \<^verbatim>\<open>get_top_k_logits\<close> clamps \<open>top_k\<close> to \<open>k\<close> in \<open>[1, N]\<close> and replaces exactly the
  entries strictly below the k-th highest score \<open>t\<close> by negative infinity; every
  other entry, ties at \<open>t\<close> included, is unchanged, so at least \<open>k\<close> entries survive.
\<close>

theorem get_top_k_logits_kth_highest:
  assumes "scores \<noteq> []"
  shows "\<exists>k t. int k = min (max top_k 1) (int (length scores)) \<and> 1 \<le> k \<and> k \<le> length scores \<and>
           is_kth_highest scores k t \<and>
           k \<le> length (filter (\<lambda>s. \<not> s < t) scores) \<and>
           get_top_k_logits scores top_k = Inr (map (\<lambda>s. if s < t then NegInf else s) scores)"
proof -
  let ?k = "nat (min (max top_k 1) (int (length scores)))"
  let ?t = "rev (sort scores) ! (?k - 1)"
  have "0 < length scores" using assms by simp
  then have k: "0 < ?k" "?k \<le> length scores" by linarith+
  have 1: "int ?k = min (max top_k 1) (int (length scores))" using k by linarith
  have 2: "is_kth_highest scores ?k ?t" using k by (rule kth_highest_desc_sort)
  then have "?k \<le> length (filter (\<lambda>s. ?t \<le> s) scores)" by (simp add: is_kth_highest_def)
  then have 3: "?k \<le> length (filter (\<lambda>s. \<not> s < ?t) scores)" by (simp add: not_less)
  have 4: "get_top_k_logits scores top_k = Inr (map (\<lambda>s. if s < ?t then NegInf else s) scores)"
    using assms by (rule get_top_k_logits_threshold)
  have 5: "1 \<le> ?k" using k(1) by linarith
  show ?thesis
    apply (rule exI[of _ ?k])
    apply (rule exI[of _ ?t])
    apply (intro conjI)
    apply (rule 1)
    apply (rule 5)
    apply (rule k(2))
    apply (rule 2)
    apply (rule 3)
    apply (rule 4)
    done
qed

theorem get_top_k_logits_kth_highest_witness:
  "[Fin 1, Fin 3, Fin 3, Fin 2] \<noteq> [] \<and>
   (\<exists>k t. int k = min (max 2 1) (int (length [Fin 1, Fin 3, Fin 3, Fin 2])) \<and> 1 \<le> k \<and>
      k \<le> length [Fin 1, Fin 3, Fin 3, Fin 2] \<and>
      is_kth_highest [Fin 1, Fin 3, Fin 3, Fin 2] k t \<and>
      k \<le> length (filter (\<lambda>s. \<not> s < t) [Fin 1, Fin 3, Fin 3, Fin 2]) \<and>
      get_top_k_logits [Fin 1, Fin 3, Fin 3, Fin 2] 2 =
        Inr (map (\<lambda>s. if s < t then NegInf else s) [Fin 1, Fin 3, Fin 3, Fin 2])) \<and>
   get_top_k_logits [Fin 1, Fin 3, Fin 3, Fin 2] 2 = Inr [NegInf, Fin 3, Fin 3, NegInf] \<and>
   get_top_k_logits [Fin 1, Fin 3, Fin 3, Fin 2] 3 = Inr [NegInf, Fin 3, Fin 3, Fin 2] \<and>
   get_top_k_logits [Fin 1, Fin 3, Fin 3, Fin 2] (- 7) = Inr [NegInf, Fin 3, Fin 3, NegInf]"
proof -
  have ne: "[Fin 1, Fin 3, Fin 3, Fin 2] \<noteq> []" by simp
  have ev: "get_top_k_logits [Fin 1, Fin 3, Fin 3, Fin 2] 2 = Inr [NegInf, Fin 3, Fin 3, NegInf]"
    "get_top_k_logits [Fin 1, Fin 3, Fin 3, Fin 2] 3 = Inr [NegInf, Fin 3, Fin 3, Fin 2]"
    "get_top_k_logits [Fin 1, Fin 3, Fin 3, Fin 2] (- 7) = Inr [NegInf, Fin 3, Fin 3, NegInf]"
    by (simp_all add: get_top_k_logits_def less_score_def)
  show ?thesis
    using ne get_top_k_logits_kth_highest [OF ne, of 2] ev by simp
qed

text \<open>
  Claim C7. For a non-empty scores row of length \<open>N\<close>: with \<open>top_k \<ge> N\<close> the filter
  returns the row unchanged, and with \<open>top_k = 1\<close> exactly the entries equal to the
  maximum of the row survive, every other entry becoming negative infinity.
\<close>

theorem get_top_k_logits_extremes:
  assumes "scores \<noteq> []"
  shows "(int (length scores) \<le> top_k \<longrightarrow> get_top_k_logits scores top_k = Inr scores) \<and>
         get_top_k_logits scores 1 =
           Inr (map (\<lambda>s. if s = Max (set scores) then s else NegInf) scores)"
proof
  have len: "0 < length scores" using assms by simp
  show "int (length scores) \<le> top_k \<longrightarrow> get_top_k_logits scores top_k = Inr scores"
  proof
    assume big: "int (length scores) \<le> top_k"
    let ?k = "nat (min (max top_k 1) (int (length scores)))"
    have k: "?k = length scores" using big len by linarith
    let ?t = "rev (sort scores) ! (?k - 1)"
    have "is_kth_highest scores (length scores) ?t"
      using kth_highest_desc_sort[of "length scores" scores] len unfolding k by simp
    then have "\<And>s. s \<in> set scores \<Longrightarrow> \<not> s < ?t" by (rule all_above_last_highest)
    then have "map (\<lambda>s. if s < ?t then NegInf else s) scores = scores"
      by (intro map_idI) simp
    then show "get_top_k_logits scores top_k = Inr scores"
      using get_top_k_logits_threshold[OF assms, of top_k] by simp
  qed
next
  have len: "0 < length scores" using assms by simp
  let ?k = "nat (min (max 1 1) (int (length scores)))"
  have k: "?k = 1" using len by linarith
  let ?t = "rev (sort scores) ! (?k - 1)"
  have "is_kth_highest scores 1 ?t"
    using kth_highest_desc_sort[of 1 scores] len unfolding k by simp
  then have t: "?t = Max (set scores)" by (rule max_is_first_highest)
  have "\<And>s. s \<in> set scores \<Longrightarrow> (s < Max (set scores)) = (s \<noteq> Max (set scores))"
    by (metis List.finite_set Max_ge less_le)
  then have "map (\<lambda>s. if s < ?t then NegInf else s) scores =
      map (\<lambda>s. if s = Max (set scores) then s else NegInf) scores"
    unfolding t by (intro map_cong) auto
  then show "get_top_k_logits scores 1 =
      Inr (map (\<lambda>s. if s = Max (set scores) then s else NegInf) scores)"
    using get_top_k_logits_threshold[OF assms, of 1] by simp
qed

theorem get_top_k_logits_extremes_witness:
  "[Fin 1, Fin 3, Fin 3, Fin 2] \<noteq> [] \<and>
   int (length [Fin 1, Fin 3, Fin 3, Fin 2]) \<le> 4 \<and>
   get_top_k_logits [Fin 1, Fin 3, Fin 3, Fin 2] 4 = Inr [Fin 1, Fin 3, Fin 3, Fin 2] \<and>
   get_top_k_logits [Fin 1, Fin 3, Fin 3, Fin 2] 1 = Inr [NegInf, Fin 3, Fin 3, NegInf]"
proof -
  have ne: "[Fin 1, Fin 3, Fin 3, Fin 2] \<noteq> []" by simp
  have m: "Max (set [Fin 1, Fin 3, Fin 3, Fin 2]) = Fin 3"
    by (simp add: max_def)
  show ?thesis
    using get_top_k_logits_extremes [OF ne, of 4] by (simp add: m)
qed

subsection \<open>Softmax in exact arithmetic\<close>

text \<open>
  On finite numbers the arithmetic of the embedding is exact. The lemmas of this
  subsection give what \<^verbatim>\<open>softmax\<close> computes there: on a row whose maximum is finite,
  the shifted exponentials divided by their sum, which is at least 1.
\<close>

lemma softmax_with_neg_inf: "softmax [Fin 3, NegInf] = Inr [Num (Fin 1), Num (Fin 0)]"
  by (simp add: softmax_def max_def)














section \<open>Properties of the decoding loop\<close>

subsection \<open>Helpers and the stub environments\<close>

lemma ebind_Inr [simp]: "ebind (Inr x) f = f x"
  by (simp add: ebind_def)

lemma ebind_Inl [simp]: "ebind (Inl e) f = Inl e"
  by (simp add: ebind_def)

lemma py_nth_last: "xs \<noteq> [] \<Longrightarrow> py_nth xs (- 1) = Inr (last xs)"
  by (cases xs rule: rev_cases) (auto simp: py_nth_def nth_append)

lemma py_nth_nat: "n < length xs \<Longrightarrow> py_nth xs (int n) = Inr (xs ! n)"
  by (simp add: py_nth_def)

lemma py_nth_empty: "py_nth [] i = Inl IndexError"
  by (simp add: py_nth_def)

lemma process_logits_default: "process_logits (int n) scores e 0 = Inr scores"
  by (simp add: process_logits_def)

lemma stub_top_k: "get_top_k_logits stub_row 20 = Inr stub_row"
  by (simp add: get_top_k_logits_def stub_row_def less_score_def)

lemma stub_softmax: "\<exists>p. softmax stub_row = Inr p"
  by (simp add: softmax_def stub_row_def Let_def)

lemma stub_model_nth:
  assumes "ids \<noteq> []"
  shows "py_nth (map (\<lambda>_. stub_row) (ids @ pad)) (int (length ids) - 1) = Inr stub_row"
proof -
  obtain k where k: "length ids = Suc k" using assms by (cases ids) auto
  have i: "int (length ids) - 1 = int k" using k by simp
  have l: "k < length (map (\<lambda>_. stub_row) (ids @ pad))" using k by simp
  have "py_nth (map (\<lambda>_. stub_row) (ids @ pad)) (int k) = Inr (map (\<lambda>_. stub_row) (ids @ pad) ! k)"
    using l by (rule py_nth_nat)
  also have "map (\<lambda>_. stub_row) (ids @ pad) ! k = stub_row"
    using l by (simp only: nth_map length_map)
  finally show ?thesis using i by simp
qed

lemma stub_model_step:
  assumes "ids \<noteq> []"
  shows "ebind (stub_model (ids @ pad) am)
           (\<lambda>outputs. ebind (py_nth outputs (int (length ids) - 1)) f) = f stub_row"
  unfolding stub_model_def ebind_Inr stub_model_nth[OF assms] ..

lemma stub_model_step_dynamic:
  assumes "ids \<noteq> []"
  shows "ebind (stub_model ids am)
           (\<lambda>outputs. ebind (py_nth outputs (int (length ids) - 1)) f) = f stub_row"
  using stub_model_step[OF assms, of "[]"] by simp

lemma stub_next_tokens:
  assumes "ids \<noteq> []" and "compiled_model E = stub_model"
  shows "\<exists>p. next_tokens E g ids am L e d = np_random_choice E g (length p) p"
proof -
  obtain p where p: "softmax stub_row = Inr p" using stub_softmax by blast
  have "next_tokens E g ids am L e d = np_random_choice E g (length p) p"
    unfolding next_tokens_def Let_def assms(2)
    by (cases d)
      (simp_all add: stub_model_step[OF assms(1)] stub_model_step_dynamic[OF assms(1)]
        process_logits_default stub_top_k p)
  then show ?thesis ..
qed

lemma next_tokens_constant:
  assumes "ids \<noteq> []"
  shows "next_tokens (constant_env t) g ids am L e d = Inr (t, g)"
  using stub_next_tokens[OF assms, of "constant_env t" g am L e d]
  by (auto simp: constant_env_def)

lemma next_tokens_scripted:
  assumes "ids \<noteq> []"
  shows "next_tokens scripted_env (t # g) ids am L e d = Inr (t, g)"
  using stub_next_tokens[OF assms, of scripted_env "t # g" am L e d]
  by (auto simp: scripted_env_def)

lemma generate_sequence_extends:
  "generate_sequence n E g ids am L e d = Some (Inr (out, g')) \<Longrightarrow>
   \<exists>new. out = ids @ new \<and> e \<notin> set new \<and> (int (length ids) = L \<longrightarrow> new = []) \<and>
         (int (length ids) \<le> L \<longrightarrow> int (length out) \<le> L)"
proof (induction n arbitrary: g ids am)
  case 0
  then show ?case by simp
next
  case (Suc n)
  show ?case
  proof (cases "next_tokens E g ids am L e d")
    case (Inl err)
    with Suc.prems show ?thesis by simp
  next
    case (Inr r)
    obtain tok g1 where r: "r = (tok, g1)" by (cases r)
    show ?thesis
    proof (cases "int (length ids) = L \<or> tok = e")
      case True
      with Suc.prems Inr r have "out = ids" by auto
      then show ?thesis by simp
    next
      case False
      with Suc.prems Inr r
      have "generate_sequence n E g1 (ids @ [tok]) (am @ [1]) L e d = Some (Inr (out, g'))"
        by simp
      from Suc.IH[OF this] obtain new where
        new: "out = (ids @ [tok]) @ new" "e \<notin> set new"
          "int (length (ids @ [tok])) \<le> L \<longrightarrow> int (length out) \<le> L"
        by blast
      have "out = ids @ (tok # new)" using new(1) by simp
      moreover have "e \<notin> set (tok # new)" using new(2) False by auto
      moreover have "int (length ids) \<le> L \<longrightarrow> int (length out) \<le> L"
        using new(3) False by auto
      ultimately show ?thesis using False by blast
    qed
  qed
qed

lemma generate_sequence_fuel_Suc:
  "generate_sequence n E g ids am L e d = Some r \<Longrightarrow>
   generate_sequence (Suc n) E g ids am L e d = Some r"
proof (induction n arbitrary: g ids am)
  case 0
  then show ?case by simp
next
  case (Suc n)
  show ?case
  proof (cases "next_tokens E g ids am L e d")
    case (Inl err)
    with Suc.prems show ?thesis by simp
  next
    case (Inr p)
    obtain tok g1 where p: "p = (tok, g1)" by (cases p)
    show ?thesis
    proof (cases "int (length ids) = L \<or> tok = e")
      case True
      with Suc.prems Inr p show ?thesis by auto
    next
      case False
      with Suc.prems Inr p
      have "generate_sequence n E g1 (ids @ [tok]) (am @ [1]) L e d = Some r" by simp
      from Suc.IH[OF this] show ?thesis
        using Inr p False by (simp del: generate_sequence.simps(2) add: generate_sequence.simps(2)[of "Suc n"])
    qed
  qed
qed

lemma generate_sequence_fuel_mono:
  "generate_sequence n E g ids am L e d = Some r \<Longrightarrow> n \<le> m \<Longrightarrow>
   generate_sequence m E g ids am L e d = Some r"
proof (induction m)
  case 0
  then show ?case by simp
next
  case (Suc m)
  show ?case
  proof (cases "n = Suc m")
    case True
    with Suc.prems show ?thesis by simp
  next
    case False
    with Suc.prems have "n \<le> m" by simp
    with Suc have "generate_sequence m E g ids am L e d = Some r" by simp
    then show ?thesis by (rule generate_sequence_fuel_Suc)
  qed
qed

lemma run_constant_to_cap:
  "generate_sequence (Suc (Suc (Suc (Suc 0)))) (constant_env 7) () [1] [1] 4 0 True =
     Some (Inr ([1, 7, 7, 7], ()))"
  by (simp add: next_tokens_constant)

subsection \<open>The termination check\<close>

text \<open>
  Claim C1. The check runs before the append: when the drawn token is the eos id or
  the current length equals \<open>max_sequence_length\<close>, the loop returns the ids as they
  stand, without the drawn token; in particular a call whose input length equals
  \<open>max_sequence_length\<close> returns its input. Whatever the loop returns is the input
  extended by tokens none of which is the eos id, nothing is appended when the input
  length equals \<open>max_sequence_length\<close>, and an input within the cap stays within it.
\<close>

theorem generate_sequence_checks_before_append:
  "(next_tokens E g input_ids attention_mask max_sequence_length eos_token_id dynamic_shapes = Inr (tok, g') \<and>
      (int (length input_ids) = max_sequence_length \<or> tok = eos_token_id) \<longrightarrow>
    generate_sequence (Suc n) E g input_ids attention_mask max_sequence_length eos_token_id dynamic_shapes =
      Some (Inr (input_ids, g'))) \<and>
   (generate_sequence n E g input_ids attention_mask max_sequence_length eos_token_id dynamic_shapes =
      Some (Inr (out, g'')) \<longrightarrow>
    (\<exists>new. out = input_ids @ new \<and> eos_token_id \<notin> set new \<and>
       (int (length input_ids) = max_sequence_length \<longrightarrow> new = []) \<and>
       (int (length input_ids) \<le> max_sequence_length \<longrightarrow> int (length out) \<le> max_sequence_length)))"
proof (intro conjI impI)
  assume "next_tokens E g input_ids attention_mask max_sequence_length eos_token_id dynamic_shapes = Inr (tok, g') \<and>
      (int (length input_ids) = max_sequence_length \<or> tok = eos_token_id)"
  then show "generate_sequence (Suc n) E g input_ids attention_mask max_sequence_length eos_token_id dynamic_shapes =
      Some (Inr (input_ids, g'))"
    by auto
next
  assume "generate_sequence n E g input_ids attention_mask max_sequence_length eos_token_id dynamic_shapes =
      Some (Inr (out, g''))"
  then show "\<exists>new. out = input_ids @ new \<and> eos_token_id \<notin> set new \<and>
       (int (length input_ids) = max_sequence_length \<longrightarrow> new = []) \<and>
       (int (length input_ids) \<le> max_sequence_length \<longrightarrow> int (length out) \<le> max_sequence_length)"
    by (rule generate_sequence_extends)
qed

theorem generate_sequence_checks_before_append_witness:
  "next_tokens (constant_env 7) () [1] [1] 1 0 True = Inr (7, ()) \<and>
   generate_sequence (Suc 0) (constant_env 7) () [1] [1] 1 0 True = Some (Inr ([1], ())) \<and>
   next_tokens scripted_env [0] [1] [1] 5 0 True = Inr (0, []) \<and>
   generate_sequence (Suc 0) scripted_env [0] [1] [1] 5 0 True = Some (Inr ([1], [])) \<and>
   generate_sequence (Suc (Suc (Suc (Suc 0)))) (constant_env 7) () [1] [1] 4 0 True =
     Some (Inr ([1, 7, 7, 7], ())) \<and>
   (\<exists>new. [1, 7, 7, 7] = [1] @ new \<and> (0::nat) \<notin> set new \<and> int (length [1, 7, 7, 7 :: nat]) \<le> 4)"
proof -
  have a: "next_tokens (constant_env 7) () [1] [1] 1 0 True = Inr (7, ())"
    by (simp add: next_tokens_constant)
  have b: "next_tokens scripted_env [0] [1] [1] 5 0 True = Inr (0, [])"
    by (simp add: next_tokens_scripted)
  note c = run_constant_to_cap
  from a generate_sequence_checks_before_append
    [of "constant_env 7" "()" "[1]" "[1]" 1 0 True 7 "()" 0 "[1]" "()"]
  have 1: "generate_sequence (Suc 0) (constant_env 7) () [1] [1] 1 0 True = Some (Inr ([1], ()))"
    by simp
  from b generate_sequence_checks_before_append
    [of scripted_env "[0]" "[1]" "[1]" 5 0 True 0 "[]" 0 "[1]" "[]"]
  have 2: "generate_sequence (Suc 0) scripted_env [0] [1] [1] 5 0 True = Some (Inr ([1], []))"
    by simp
  from c generate_sequence_checks_before_append
    [of "constant_env 7" "()" "[1]" "[1]" 4 0 True 7 "()" "Suc (Suc (Suc (Suc 0)))" "[1, 7, 7, 7]" "()"]
  have 3: "\<exists>new. [1, 7, 7, 7] = [1] @ new \<and> (0::nat) \<notin> set new \<and> int (length [1, 7, 7, 7 :: nat]) \<le> 4"
    by simp
  from a b c 1 2 3 show ?thesis by blast
qed

subsection \<open>Determinism\<close>

lemma generate_sequence_returns_within_cap:
  "int (length ids) \<le> L \<Longrightarrow> nat (L - int (length ids)) < n \<Longrightarrow>
   \<exists>r. generate_sequence n E g ids am L e d = Some r"
proof (induction n arbitrary: g ids am)
  case 0
  then show ?case by simp
next
  case (Suc n)
  show ?case
  proof (cases "next_tokens E g ids am L e d")
    case (Inl err)
    then show ?thesis by simp
  next
    case (Inr r)
    obtain tok g1 where r: "r = (tok, g1)" by (cases r)
    show ?thesis
    proof (cases "int (length ids) = L \<or> tok = e")
      case True
      with Inr r show ?thesis by auto
    next
      case False
      then have lt: "int (length ids) < L" using Suc.prems(1) by simp
      then have 1: "int (length (ids @ [tok])) \<le> L" by simp
      have 2: "nat (L - int (length (ids @ [tok]))) < n" using lt Suc.prems(2) by simp
      from Suc.IH[OF 1 2] obtain r' where
        "generate_sequence n E g1 (ids @ [tok]) (am @ [1]) L e d = Some r'" by blast
      with Inr r False show ?thesis by simp
    qed
  qed
qed

lemma nat_diff_step: "(l::int) < L \<Longrightarrow> nat (L - l) = Suc (nat (L - (l + 1)))"
  by linarith

lemma longer_than_prefix: "out = (ids @ [tok]) @ X \<Longrightarrow> length ids < length out"
  by simp

lemma generate_sequence_scripted:
  assumes "np_random_choice E = (\<lambda>g n p. case g of [] \<Rightarrow> Inl ValueError | t # g' \<Rightarrow> Inr (t, g'))"
  shows "generate_sequence n E draws ids am L e d = Some (Inr (out, rest)) \<Longrightarrow>
    out = ids @ (if int (length ids) \<le> L
                 then take (nat (L - int (length ids))) (takeWhile (\<lambda>t. t \<noteq> e) draws)
                 else takeWhile (\<lambda>t. t \<noteq> e) draws) \<and>
    rest = drop (Suc (length out - length ids)) draws"
proof (induction n arbitrary: draws ids am)
  case 0
  then show ?case by simp
next
  case (Suc n)
  show ?case
  proof (cases "next_tokens E draws ids am L e d")
    case (Inl err)
    with Suc.prems show ?thesis by simp
  next
    case (Inr r)
    obtain tok g1 where r: "r = (tok, g1)" by (cases r)
    have "\<exists>p. next_tokens E draws ids am L e d = Inl p \<or>
        (\<exists>k q. next_tokens E draws ids am L e d = np_random_choice E draws k q)"
      unfolding next_tokens_def Let_def ebind_def
      by (auto split: sum.splits)
    with Inr r obtain k q where "np_random_choice E draws k q = Inr (tok, g1)" by auto
    then have dr: "draws = tok # g1"
      unfolding assms by (cases draws) auto
    show ?thesis
    proof (cases "int (length ids) = L \<or> tok = e")
      case True
      with Suc.prems Inr r have o: "out = ids" "rest = g1" by auto
      from True show ?thesis
      proof
        assume "int (length ids) = L"
        then show ?thesis using o dr by simp
      next
        assume "tok = e"
        then show ?thesis using o dr by simp
      qed
    next
      case False
      with Suc.prems Inr r
      have run: "generate_sequence n E g1 (ids @ [tok]) (am @ [1]) L e d = Some (Inr (out, rest))"
        by simp
      from Suc.IH[OF run] have
        ih1: "out = (ids @ [tok]) @ (if int (length (ids @ [tok])) \<le> L
                 then take (nat (L - int (length (ids @ [tok])))) (takeWhile (\<lambda>t. t \<noteq> e) g1)
                 else takeWhile (\<lambda>t. t \<noteq> e) g1)"
        and ih2: "rest = drop (Suc (length out - length (ids @ [tok]))) g1"
        by simp_all
      have ne: "tok \<noteq> e" "int (length ids) \<noteq> L" using False by simp_all
      have len: "length ids < length out" using ih1 by (rule longer_than_prefix)
      have 2: "rest = drop (Suc (length out - length ids)) draws"
        using ih2 len dr by (simp add: Suc_diff_Suc)
      have 1: "out = ids @ (if int (length ids) \<le> L
                 then take (nat (L - int (length ids))) (takeWhile (\<lambda>t. t \<noteq> e) draws)
                 else takeWhile (\<lambda>t. t \<noteq> e) draws)"
      proof (cases "int (length ids) \<le> L")
        case True
        then have lt: "int (length ids) < L" using ne(2) by simp
        define j where "j = nat (L - int (length (ids @ [tok])))"
        have j: "nat (L - int (length ids)) = Suc j" "nat (L - int (length (ids @ [tok]))) = j"
          using nat_diff_step[OF lt] by (simp_all add: j_def)
        have "int (length (ids @ [tok])) \<le> L" using lt by simp
        with ih1 j have "out = (ids @ [tok]) @ take j (takeWhile (\<lambda>t. t \<noteq> e) g1)" by simp
        then show ?thesis using True j dr ne(1) by simp
      next
        case False
        then have "\<not> int (length (ids @ [tok])) \<le> L" by simp
        with ih1 have "out = (ids @ [tok]) @ takeWhile (\<lambda>t. t \<noteq> e) g1" by simp
        then show ?thesis using False dr ne(1) by simp
      qed
      from 1 2 show ?thesis ..
    qed
  qed
qed

text \<open>
  Claim C9. With the environment (model and tokenizer) and the initial state of the
  random source fixed, two runs of \<^verbatim>\<open>generate_sequence\<close> on the same ids, mask and
  configuration that return, return the same result, however long each was allowed
  to run. A call whose input is within the cap does return: it leaves the loop, with
  a result or an exception, after at most \<open>max_sequence_length - length + 1\<close>
  iterations. And with a random source that hands out a given sequence of draws, the
  returned ids are the input followed by the draws before the first eos id, cut at
  the cap when the input is within it, and the draws left over are those behind
  the last one taken: the output is a function of the input, the cap, the eos id
  and the draws.
\<close>

theorem generate_sequence_deterministic:
  "(generate_sequence n E g input_ids attention_mask max_sequence_length eos_token_id dynamic_shapes =
      Some r1 \<and>
    generate_sequence m E g input_ids attention_mask max_sequence_length eos_token_id dynamic_shapes =
      Some r2 \<longrightarrow> r1 = r2) \<and>
   (int (length input_ids) \<le> max_sequence_length \<longrightarrow>
    (\<exists>r. generate_sequence (Suc (nat (max_sequence_length - int (length input_ids)))) E g
            input_ids attention_mask max_sequence_length eos_token_id dynamic_shapes = Some r)) \<and>
   (np_random_choice S = (\<lambda>g n p. case g of [] \<Rightarrow> Inl ValueError | t # g' \<Rightarrow> Inr (t, g')) \<and>
    generate_sequence n S draws input_ids attention_mask max_sequence_length eos_token_id dynamic_shapes =
      Some (Inr (out, rest)) \<longrightarrow>
    out = input_ids @
      (if int (length input_ids) \<le> max_sequence_length
       then take (nat (max_sequence_length - int (length input_ids)))
              (takeWhile (\<lambda>t. t \<noteq> eos_token_id) draws)
       else takeWhile (\<lambda>t. t \<noteq> eos_token_id) draws) \<and>
    rest = drop (Suc (length out - length input_ids)) draws)"
proof (intro conjI impI)
  assume a: "generate_sequence n E g input_ids attention_mask max_sequence_length eos_token_id dynamic_shapes =
      Some r1 \<and>
    generate_sequence m E g input_ids attention_mask max_sequence_length eos_token_id dynamic_shapes =
      Some r2"
  have "generate_sequence (max n m) E g input_ids attention_mask max_sequence_length eos_token_id dynamic_shapes = Some r1"
    using conjunct1[OF a] by (rule generate_sequence_fuel_mono) simp
  moreover have "generate_sequence (max n m) E g input_ids attention_mask max_sequence_length eos_token_id dynamic_shapes = Some r2"
    using conjunct2[OF a] by (rule generate_sequence_fuel_mono) simp
  ultimately show "r1 = r2" by simp
next
  assume "int (length input_ids) \<le> max_sequence_length"
  then show "\<exists>r. generate_sequence (Suc (nat (max_sequence_length - int (length input_ids)))) E g
            input_ids attention_mask max_sequence_length eos_token_id dynamic_shapes = Some r"
    by (rule generate_sequence_returns_within_cap) simp
next
  assume a: "np_random_choice S = (\<lambda>g n p. case g of [] \<Rightarrow> Inl ValueError | t # g' \<Rightarrow> Inr (t, g')) \<and>
    generate_sequence n S draws input_ids attention_mask max_sequence_length eos_token_id dynamic_shapes =
      Some (Inr (out, rest))"
  from generate_sequence_scripted[OF conjunct1[OF a] conjunct2[OF a]]
  show "out = input_ids @
      (if int (length input_ids) \<le> max_sequence_length
       then take (nat (max_sequence_length - int (length input_ids)))
              (takeWhile (\<lambda>t. t \<noteq> eos_token_id) draws)
       else takeWhile (\<lambda>t. t \<noteq> eos_token_id) draws)"
    and "rest = drop (Suc (length out - length input_ids)) draws"
    by simp_all
qed

theorem generate_sequence_deterministic_witness:
  "generate_sequence (Suc (Suc (Suc (Suc 0)))) (constant_env 7) () [1] [1] 4 0 True =
     Some (Inr ([1, 7, 7, 7], ())) \<and>
   generate_sequence (Suc (Suc (Suc (Suc (Suc (Suc 0)))))) (constant_env 7) () [1] [1] 4 0 True =
     Some (Inr ([1, 7, 7, 7], ())) \<and>
   int (length [1 :: nat]) \<le> 4 \<and>
   generate_sequence (Suc (nat (4 - int (length [1 :: nat])))) (constant_env 7) () [1] [1] 4 0 True =
     Some (Inr ([1, 7, 7, 7], ())) \<and>
   generate_sequence (Suc (Suc (Suc 0))) scripted_env [7, 7, 0, 9] [1] [1] 10 0 True =
     Some (Inr ([1, 7, 7], [9])) \<and>
   [1, 7, 7] = [1] @ take (nat (10 - int (length [1 :: nat]))) (takeWhile (\<lambda>t. t \<noteq> 0) [7, 7, 0, 9 :: nat]) \<and>
   generate_sequence (Suc (Suc (Suc 0))) scripted_env [7, 7, 7, 7] [1] [1] 3 0 True =
     Some (Inr ([1, 7, 7], [7])) \<and>
   [1, 7, 7] = [1] @ take (nat (3 - int (length [1 :: nat]))) (takeWhile (\<lambda>t. t \<noteq> 0) [7, 7, 7, 7 :: nat])"
proof -
  have a: "generate_sequence (Suc (Suc (Suc (Suc 0)))) (constant_env 7) () [1] [1] 4 0 True =
     Some (Inr ([1, 7, 7, 7], ()))"
    by (rule run_constant_to_cap)
  obtain r where b: "generate_sequence (Suc (Suc (Suc (Suc (Suc (Suc 0)))))) (constant_env 7) () [1] [1] 4 0 True = Some r"
    by (simp add: next_tokens_constant)
  from generate_sequence_deterministic
    [of "Suc (Suc (Suc (Suc 0)))" "constant_env 7" "()" "[1]" "[1]" 4 0 True _
      "Suc (Suc (Suc (Suc (Suc (Suc 0)))))" r]
    a b
  have 1: "generate_sequence (Suc (Suc (Suc (Suc (Suc (Suc 0)))))) (constant_env 7) () [1] [1] 4 0 True =
     Some (Inr ([1, 7, 7, 7], ()))"
    by simp
  have f: "Suc (nat (4 - int (length [1 :: nat]))) = Suc (Suc (Suc (Suc 0)))" by simp
  have 2: "generate_sequence (Suc (nat (4 - int (length [1 :: nat])))) (constant_env 7) () [1] [1] 4 0 True =
     Some (Inr ([1, 7, 7, 7], ()))"
    unfolding f by (rule a)
  have c: "generate_sequence (Suc (Suc (Suc 0))) scripted_env [7, 7, 0, 9] [1] [1] 10 0 True =
     Some (Inr ([1, 7, 7], [9]))"
    by (simp add: next_tokens_scripted)
  have d: "generate_sequence (Suc (Suc (Suc 0))) scripted_env [7, 7, 7, 7] [1] [1] 3 0 True =
     Some (Inr ([1, 7, 7], [7]))"
    by (simp add: next_tokens_scripted)
  have s: "np_random_choice scripted_env =
      (\<lambda>g n p. case g of [] \<Rightarrow> Inl ValueError | t # g' \<Rightarrow> Inr (t, g'))"
    by (simp add: scripted_env_def)
  from generate_sequence_deterministic
    [of _ _ _ "[1]" "[1]" 10 0 True _ _ _ scripted_env "[7, 7, 0, 9]" "[1, 7, 7]" "[9]"] s c
  have 3: "[1, 7, 7] = [1] @ take (nat (10 - int (length [1 :: nat]))) (takeWhile (\<lambda>t. t \<noteq> 0) [7, 7, 0, 9 :: nat])"
    by simp
  from generate_sequence_deterministic
    [of _ _ _ "[1]" "[1]" 3 0 True _ _ _ scripted_env "[7, 7, 7, 7]" "[1, 7, 7]" "[7]"] s d
  have 4: "[1, 7, 7] = [1] @ take (nat (3 - int (length [1 :: nat]))) (takeWhile (\<lambda>t. t \<noteq> 0) [7, 7, 7, 7 :: nat])"
    by simp
  from a 1 2 c 3 d 4 show ?thesis by simp
qed

subsection \<open>Empty input\<close>

lemma next_tokens_empty:
  "next_tokens E g [] [] L e d =
     ebind (compiled_model E (if d then [] else replicate (nat L) e) (if d then [] else replicate (nat L) 0))
       (\<lambda>outputs. ebind (py_nth outputs (- 1)) (\<lambda>logits.
          ebind (get_top_k_logits logits 20) (\<lambda>scores.
          ebind (softmax scores) (\<lambda>probs. np_random_choice E g (length probs) probs))))"
  by (simp add: next_tokens_def Let_def process_logits_def)

lemma next_tokens_constant_empty_padded:
  "next_tokens (constant_env t) g [] [] 2 e False = Inr (t, g)"
proof -
  obtain p where p: "softmax stub_row = Inr p" using stub_softmax by blast
  have m: "compiled_model (constant_env t) (replicate (nat 2) e) (replicate (nat 2) 0) =
      Inr [stub_row, stub_row]"
    by (simp add: constant_env_def stub_model_def numeral_2_eq_2)
  show ?thesis
    using m by (simp add: next_tokens_empty py_nth_last stub_top_k p constant_env_def)
qed

lemma scripted_choice:
  "np_random_choice scripted_env g n p = (case g of [] \<Rightarrow> Inl ValueError | t # g' \<Rightarrow> Inr (t, g'))"
  by (simp add: scripted_env_def)

text \<open>
  Claim C5 says that a zero-length token sequence is rejected with an EmptyInput
  error before the first model call. The loop has no such check. On the empty
  sequence its first iteration calls the model (on the empty sequence with dynamic
  shapes, on \<open>max_sequence_length\<close> padding tokens otherwise). If the model fails,
  that failure leaves the loop. If the model returns no row, reading position \<open>-1\<close>
  raises \<^verbatim>\<open>IndexError\<close>. Otherwise the last row is filtered, normalised and sampled
  from: an exception of these steps leaves the loop, and when a token is drawn the
  call returns the empty sequence if \<open>max_sequence_length\<close> is 0 or the token is the
  eos id, and otherwise goes on as a call on the sequence of that one token. The
  counterexample is a run in fixed-padding mode that starts from the empty sequence
  and returns two generated tokens.
\<close>

theorem generate_sequence_empty_input:
  "(compiled_model E (if dynamic_shapes then [] else replicate (nat max_sequence_length) eos_token_id)
       (if dynamic_shapes then [] else replicate (nat max_sequence_length) 0) = Inl err \<longrightarrow>
     generate_sequence (Suc n) E g [] [] max_sequence_length eos_token_id dynamic_shapes = Some (Inl err)) \<and>
   (compiled_model E (if dynamic_shapes then [] else replicate (nat max_sequence_length) eos_token_id)
       (if dynamic_shapes then [] else replicate (nat max_sequence_length) 0) = Inr [] \<longrightarrow>
     generate_sequence (Suc n) E g [] [] max_sequence_length eos_token_id dynamic_shapes =
       Some (Inl IndexError)) \<and>
   (compiled_model E (if dynamic_shapes then [] else replicate (nat max_sequence_length) eos_token_id)
       (if dynamic_shapes then [] else replicate (nat max_sequence_length) 0) = Inr outputs \<and>
     outputs \<noteq> [] \<and>
     ebind (get_top_k_logits (last outputs) 20) (\<lambda>scores.
       ebind (softmax scores) (\<lambda>probs. np_random_choice E g (length probs) probs)) = Inl err \<longrightarrow>
     generate_sequence (Suc n) E g [] [] max_sequence_length eos_token_id dynamic_shapes = Some (Inl err)) \<and>
   (compiled_model E (if dynamic_shapes then [] else replicate (nat max_sequence_length) eos_token_id)
       (if dynamic_shapes then [] else replicate (nat max_sequence_length) 0) = Inr outputs \<and>
     outputs \<noteq> [] \<and>
     ebind (get_top_k_logits (last outputs) 20) (\<lambda>scores.
       ebind (softmax scores) (\<lambda>probs. np_random_choice E g (length probs) probs)) = Inr (tok, g') \<longrightarrow>
     generate_sequence (Suc n) E g [] [] max_sequence_length eos_token_id dynamic_shapes =
       (if max_sequence_length = 0 \<or> tok = eos_token_id then Some (Inr ([], g'))
        else generate_sequence n E g' [tok] [1] max_sequence_length eos_token_id dynamic_shapes))"
proof (intro conjI impI)
  assume "compiled_model E (if dynamic_shapes then [] else replicate (nat max_sequence_length) eos_token_id)
       (if dynamic_shapes then [] else replicate (nat max_sequence_length) 0) = Inl err"
  then have "next_tokens E g [] [] max_sequence_length eos_token_id dynamic_shapes = Inl err"
    by (simp add: next_tokens_empty)
  then show "generate_sequence (Suc n) E g [] [] max_sequence_length eos_token_id dynamic_shapes = Some (Inl err)"
    by simp
next
  assume "compiled_model E (if dynamic_shapes then [] else replicate (nat max_sequence_length) eos_token_id)
       (if dynamic_shapes then [] else replicate (nat max_sequence_length) 0) = Inr []"
  then have "next_tokens E g [] [] max_sequence_length eos_token_id dynamic_shapes = Inl IndexError"
    by (simp add: next_tokens_empty py_nth_empty)
  then show "generate_sequence (Suc n) E g [] [] max_sequence_length eos_token_id dynamic_shapes =
       Some (Inl IndexError)"
    by simp
next
  assume "compiled_model E (if dynamic_shapes then [] else replicate (nat max_sequence_length) eos_token_id)
       (if dynamic_shapes then [] else replicate (nat max_sequence_length) 0) = Inr outputs \<and>
     outputs \<noteq> [] \<and>
     ebind (get_top_k_logits (last outputs) 20) (\<lambda>scores.
       ebind (softmax scores) (\<lambda>probs. np_random_choice E g (length probs) probs)) = Inl err"
  then have "next_tokens E g [] [] max_sequence_length eos_token_id dynamic_shapes = Inl err"
    by (simp add: next_tokens_empty py_nth_last)
  then show "generate_sequence (Suc n) E g [] [] max_sequence_length eos_token_id dynamic_shapes = Some (Inl err)"
    by simp
next
  assume "compiled_model E (if dynamic_shapes then [] else replicate (nat max_sequence_length) eos_token_id)
       (if dynamic_shapes then [] else replicate (nat max_sequence_length) 0) = Inr outputs \<and>
     outputs \<noteq> [] \<and>
     ebind (get_top_k_logits (last outputs) 20) (\<lambda>scores.
       ebind (softmax scores) (\<lambda>probs. np_random_choice E g (length probs) probs)) = Inr (tok, g')"
  then have "next_tokens E g [] [] max_sequence_length eos_token_id dynamic_shapes = Inr (tok, g')"
    by (simp add: next_tokens_empty py_nth_last)
  then show "generate_sequence (Suc n) E g [] [] max_sequence_length eos_token_id dynamic_shapes =
       (if max_sequence_length = 0 \<or> tok = eos_token_id then Some (Inr ([], g'))
        else generate_sequence n E g' [tok] [1] max_sequence_length eos_token_id dynamic_shapes)"
    by auto
qed

theorem generate_sequence_empty_input_counterexample:
  "generate_sequence (Suc (Suc (Suc 0))) (constant_env 7) () [] [] 2 0 False =
     Some (Inr ([7, 7], ()))"
  by (simp add: next_tokens_constant_empty_padded next_tokens_constant)

theorem generate_sequence_empty_input_witness:
  "compiled_model failing_env [] [] = Inl InferenceFailure \<and>
   generate_sequence (Suc 0) failing_env () [] [] 5 0 True = Some (Inl InferenceFailure) \<and>
   compiled_model (constant_env 7) [] [] = Inr [] \<and>
   generate_sequence (Suc 0) (constant_env 7) () [] [] 5 0 True = Some (Inl IndexError) \<and>
   compiled_model scripted_env (replicate (nat 2) 0) (replicate (nat 2) 0) = Inr [stub_row, stub_row] \<and>
   generate_sequence (Suc 0) scripted_env [] [] [] 2 0 False = Some (Inl ValueError) \<and>
   compiled_model (constant_env 7) (replicate (nat 2) 0) (replicate (nat 2) 0) = Inr [stub_row, stub_row] \<and>
   generate_sequence (Suc (Suc (Suc 0))) (constant_env 7) () [] [] 2 0 False =
     generate_sequence (Suc (Suc 0)) (constant_env 7) () [7] [1] 2 0 False \<and>
   generate_sequence (Suc (Suc 0)) (constant_env 7) () [7] [1] 2 0 False = Some (Inr ([7, 7], ()))"
proof -
  obtain p where p: "softmax stub_row = Inr p" using stub_softmax by blast
  have a: "compiled_model failing_env [] [] = Inl InferenceFailure"
    by (simp add: failing_env_def)
  have b: "compiled_model (constant_env 7) [] [] = Inr []"
    by (simp add: constant_env_def stub_model_def)
  have c: "compiled_model scripted_env (replicate (nat 2) 0) (replicate (nat 2) 0) = Inr [stub_row, stub_row]"
    by (simp add: scripted_env_def stub_model_def numeral_2_eq_2)
  have d: "compiled_model (constant_env 7) (replicate (nat 2) 0) (replicate (nat 2) 0) = Inr [stub_row, stub_row]"
    by (simp add: constant_env_def stub_model_def numeral_2_eq_2)
  have sc: "ebind (get_top_k_logits (last [stub_row, stub_row]) 20) (\<lambda>scores.
       ebind (softmax scores) (\<lambda>probs. np_random_choice scripted_env [] (length probs) probs)) =
     Inl ValueError"
    by (simp add: stub_top_k p scripted_choice)
  have co: "ebind (get_top_k_logits (last [stub_row, stub_row]) 20) (\<lambda>scores.
       ebind (softmax scores) (\<lambda>probs. np_random_choice (constant_env 7) () (length probs) probs)) =
     Inr (7, ())"
    by (simp add: stub_top_k p constant_env_def)
  from a generate_sequence_empty_input [of failing_env True 5 0 InferenceFailure 0 "()"]
  have 1: "generate_sequence (Suc 0) failing_env () [] [] 5 0 True = Some (Inl InferenceFailure)"
    by simp
  from b generate_sequence_empty_input [of "constant_env 7" True 5 0 _ 0 "()"]
  have 2: "generate_sequence (Suc 0) (constant_env 7) () [] [] 5 0 True = Some (Inl IndexError)"
    by simp
  from c sc generate_sequence_empty_input
    [of scripted_env False 2 0 ValueError 0 "[]" "[stub_row, stub_row]"]
  have 3: "generate_sequence (Suc 0) scripted_env [] [] [] 2 0 False = Some (Inl ValueError)"
    by simp
  from d co generate_sequence_empty_input
    [of "constant_env 7" False 2 0 _ "Suc (Suc 0)" "()" "[stub_row, stub_row]" 7 "()"]
  have 4: "generate_sequence (Suc (Suc (Suc 0))) (constant_env 7) () [] [] 2 0 False =
     generate_sequence (Suc (Suc 0)) (constant_env 7) () [7] [1] 2 0 False"
    by simp
  have 5: "generate_sequence (Suc (Suc 0)) (constant_env 7) () [7] [1] 2 0 False = Some (Inr ([7, 7], ()))"
    by (simp add: next_tokens_constant)
  from a b c d 1 2 3 4 5 show ?thesis by simp
qed

subsection \<open>Inputs longer than the cap\<close>

lemma generate_sequence_stops_by_eos:
  "L < int (length ids) \<Longrightarrow> generate_sequence n E g ids am L e d = Some (Inr (out, g')) \<Longrightarrow>
   \<exists>g0. next_tokens E g0 out (am @ replicate (length out - length ids) 1) L e d = Inr (e, g')"
proof (induction n arbitrary: g ids am)
  case 0
  then show ?case by simp
next
  case (Suc n)
  show ?case
  proof (cases "next_tokens E g ids am L e d")
    case (Inl err)
    with Suc.prems show ?thesis by simp
  next
    case (Inr r)
    obtain tok g1 where r: "r = (tok, g1)" by (cases r)
    have ne: "int (length ids) \<noteq> L" using Suc.prems(1) by simp
    show ?thesis
    proof (cases "tok = e")
      case True
      with Suc.prems Inr r ne have "out = ids" "g' = g1" by auto
      with Inr r True show ?thesis by auto
    next
      case False
      with Suc.prems Inr r ne
      have run: "generate_sequence n E g1 (ids @ [tok]) (am @ [1]) L e d = Some (Inr (out, g'))"
        by simp
      have "L < int (length (ids @ [tok]))" using Suc.prems(1) by simp
      from Suc.IH[OF this run] obtain g0 where
        g0: "next_tokens E g0 out ((am @ [1]) @ replicate (length out - length (ids @ [tok])) 1) L e d = Inr (e, g')"
        by blast
      from generate_sequence_extends[OF run] obtain new where "out = (ids @ [tok]) @ new" by blast
      then have "length out - length ids = Suc (length out - length (ids @ [tok]))" by simp
      then have "(am @ [1]) @ replicate (length out - length (ids @ [tok])) 1 =
          am @ replicate (length out - length ids) 1"
        by simp
      with g0 show ?thesis by auto
    qed
  qed
qed

lemma generate_sequence_runs_forever:
  assumes "\<forall>g ids am. L < int (length ids) \<longrightarrow>
             (\<exists>tok g1. next_tokens E g ids am L e d = Inr (tok, g1) \<and> tok \<noteq> e)"
  shows "L < int (length ids) \<Longrightarrow> generate_sequence n E g ids am L e d = None"
proof (induction n arbitrary: g ids am)
  case 0
  then show ?case by simp
next
  case (Suc n)
  from assms Suc.prems obtain tok g1 where
    t: "next_tokens E g ids am L e d = Inr (tok, g1)" "tok \<noteq> e"
    by blast
  have "L < int (length (ids @ [tok]))" using Suc.prems by simp
  then have "generate_sequence n E g1 (ids @ [tok]) (am @ [1]) L e d = None"
    by (rule Suc.IH)
  with t Suc.prems show ?case by simp
qed

lemma constant_env_never_eos:
  "\<forall>g ids am. L < int (length ids) \<and> 0 \<le> L \<longrightarrow>
     (\<exists>tok g1. next_tokens (constant_env 7) g ids am L 0 d = Inr (tok, g1) \<and> tok \<noteq> 0)"
proof (intro allI impI)
  fix g :: unit and ids am :: "nat list"
  assume "L < int (length ids) \<and> 0 \<le> L"
  then have "ids \<noteq> []" by auto
  then have "next_tokens (constant_env 7) g ids am L 0 d = Inr (7, g)"
    by (rule next_tokens_constant)
  then show "\<exists>tok g1. next_tokens (constant_env 7) g ids am L 0 d = Inr (tok, g1) \<and> tok \<noteq> 0"
    by simp
qed

text \<open>
  Claim C10. The length stop is the equality \<open>cur_input_len = max_sequence_length\<close>.
  On an input strictly longer than \<open>max_sequence_length\<close> it never holds: a run that
  returns has drawn the eos id in its last iteration, and in an environment that
  never fails and never draws the eos id on such inputs the loop does not return,
  whatever the fuel. The same holds for \<^verbatim>\<open>converse\<close>, which calls the loop with
  \<open>max_sequence_length = 1000\<close>, once history and new input exceed 1000 tokens.
\<close>

theorem generate_sequence_no_cap_beyond_max:
  "(max_sequence_length < int (length input_ids) \<and>
    generate_sequence n E g input_ids attention_mask max_sequence_length eos_token_id dynamic_shapes =
      Some (Inr (out, g')) \<longrightarrow>
    (\<exists>g0. next_tokens E g0 out (attention_mask @ replicate (length out - length input_ids) 1)
            max_sequence_length eos_token_id dynamic_shapes = Inr (eos_token_id, g'))) \<and>
   (max_sequence_length < int (length input_ids) \<and>
    (\<forall>g ids am. max_sequence_length < int (length ids) \<longrightarrow>
       (\<exists>tok g1. next_tokens E g ids am max_sequence_length eos_token_id dynamic_shapes = Inr (tok, g1) \<and>
          tok \<noteq> eos_token_id)) \<longrightarrow>
    generate_sequence n E g input_ids attention_mask max_sequence_length eos_token_id dynamic_shapes = None) \<and>
   (1000 < length (history @ tokenize E (input @ eos_token)) \<and>
    (\<forall>g ids am. 1000 < int (length ids) \<longrightarrow>
       (\<exists>tok g1. next_tokens E g ids am 1000 (global_eos_token_id E) True = Inr (tok, g1) \<and>
          tok \<noteq> global_eos_token_id E)) \<longrightarrow>
    converse n E g input history eos_token eos_id = None)"
proof (intro conjI impI)
  assume a: "max_sequence_length < int (length input_ids) \<and>
    generate_sequence n E g input_ids attention_mask max_sequence_length eos_token_id dynamic_shapes =
      Some (Inr (out, g'))"
  show "\<exists>g0. next_tokens E g0 out (attention_mask @ replicate (length out - length input_ids) 1)
            max_sequence_length eos_token_id dynamic_shapes = Inr (eos_token_id, g')"
    by (rule generate_sequence_stops_by_eos[OF conjunct1[OF a] conjunct2[OF a]])
next
  assume a: "max_sequence_length < int (length input_ids) \<and>
    (\<forall>g ids am. max_sequence_length < int (length ids) \<longrightarrow>
       (\<exists>tok g1. next_tokens E g ids am max_sequence_length eos_token_id dynamic_shapes = Inr (tok, g1) \<and>
          tok \<noteq> eos_token_id))"
  show "generate_sequence n E g input_ids attention_mask max_sequence_length eos_token_id dynamic_shapes = None"
    by (rule generate_sequence_runs_forever[OF conjunct2[OF a] conjunct1[OF a]])
next
  assume a: "1000 < length (history @ tokenize E (input @ eos_token)) \<and>
    (\<forall>g ids am. 1000 < int (length ids) \<longrightarrow>
       (\<exists>tok g1. next_tokens E g ids am 1000 (global_eos_token_id E) True = Inr (tok, g1) \<and>
          tok \<noteq> global_eos_token_id E))"
  let ?bot = "if length history = 0 then tokenize E (input @ eos_token)
              else history @ tokenize E (input @ eos_token)"
  have "?bot = history @ tokenize E (input @ eos_token)" by simp
  then have "1000 < int (length ?bot)" using a by simp
  then have "generate_sequence n E g ?bot (map (\<lambda>_. 1) ?bot) 1000 (global_eos_token_id E) True = None"
    by (rule generate_sequence_runs_forever[OF conjunct2[OF a]])
  then show "converse n E g input history eos_token eos_id = None"
    by (simp add: converse_def Let_def)
qed

theorem generate_sequence_no_cap_beyond_max_witness:
  "generate_sequence (Suc (Suc (Suc (Suc 0)))) scripted_env [7, 7, 7, 0] [1, 1] [1, 1] 1 0 True =
     Some (Inr ([1, 1, 7, 7, 7], [])) \<and>
   (\<exists>g0. next_tokens scripted_env g0 [1, 1, 7, 7, 7] ([1, 1] @ replicate 3 1) 1 0 True = Inr (0, [])) \<and>
   (\<forall>n. generate_sequence n (constant_env 7) () [1, 1] [1, 1] 1 0 True = None) \<and>
   (\<forall>n. converse n (constant_env 7) () ''hi'' (replicate 1000 5) ''<|endoftext|>'' 0 = None)"
proof -
  have run: "generate_sequence (Suc (Suc (Suc (Suc 0)))) scripted_env [7, 7, 7, 0] [1, 1] [1, 1] 1 0 True =
     Some (Inr ([1, 1, 7, 7, 7], []))"
    by (simp add: next_tokens_scripted)
  have len: "(1::int) < int (length [1, 1 :: nat])" by simp
  from generate_sequence_no_cap_beyond_max
    [of 1 "[1, 1]" "Suc (Suc (Suc (Suc 0)))" scripted_env "[7, 7, 7, 0]" "[1, 1]" 0 True "[1, 1, 7, 7, 7]" "[]"]
    len run
  have 1: "\<exists>g0. next_tokens scripted_env g0 [1, 1, 7, 7, 7] ([1, 1] @ replicate 3 1) 1 0 True = Inr (0, [])"
    by (simp add: numeral_3_eq_3)
  have never1: "\<forall>g ids am. 1 < int (length ids) \<longrightarrow>
      (\<exists>tok g1. next_tokens (constant_env 7) g ids am 1 0 True = Inr (tok, g1) \<and> tok \<noteq> 0)"
    using constant_env_never_eos[of 1 True] by simp
  have 2: "generate_sequence n (constant_env 7) () [1, 1] [1, 1] 1 0 True = None" for n
    using generate_sequence_no_cap_beyond_max
      [of 1 "[1, 1]" n "constant_env 7" "()" "[1, 1]" 0 True] len never1
    by blast
  have eos: "global_eos_token_id (constant_env 7) = 0"
    by (simp add: global_eos_token_id_def constant_env_def)
  have never2: "\<forall>g ids am. 1000 < int (length ids) \<longrightarrow>
      (\<exists>tok g1. next_tokens (constant_env 7) g ids am 1000 (global_eos_token_id (constant_env 7)) True =
         Inr (tok, g1) \<and> tok \<noteq> global_eos_token_id (constant_env 7))"
    using constant_env_never_eos[of 1000 True] by (simp add: eos)
  have long: "1000 < length (replicate 1000 5 @ tokenize (constant_env 7) (''hi'' @ ''<|endoftext|>''))"
    by (simp add: constant_env_def stub_tokenize_def)
  have 3: "converse n (constant_env 7) () ''hi'' (replicate 1000 5) ''<|endoftext|>'' 0 = None" for n
    using generate_sequence_no_cap_beyond_max
      [of _ _ n "constant_env 7" "()" _ _ _ _ _ "replicate 1000 5" "''hi''" "''<|endoftext|>''" 0]
      long never2
    by blast
  from run 1 2 3 show ?thesis by blast
qed

section \<open>Properties of the conversation\<close>

subsection \<open>Splitting on an unbordered separator\<close>

lemma unbordered_endoftext: "unbordered ''<|endoftext|>''"
  by (simp add: unbordered_def upt_rec[of _ "numeral _"] upt_rec[of _ "Suc _"])

lemma no_border:
  assumes "unbordered sep" "sep = u @ w" "prefix w sep" "u \<noteq> []" "w \<noteq> []"
  shows False
proof -
  let ?n = "length w"
  have n: "1 \<le> ?n" "?n < length sep" using assms by (cases w; simp)+
  have t: "take ?n sep = w"
    using assms(3) by (auto simp: prefix_def)
  have d: "drop (length sep - ?n) sep = w"
    using assms(2) by simp
  have "?n \<in> set [1..<length sep]" using n by simp
  then have "take ?n sep \<noteq> drop (length sep - ?n) sep"
    using assms(1) unfolding unbordered_def list_all_iff by blast
  with t d show False by simp
qed

lemma prefix_across:
  assumes "unbordered sep" "prefix sep (P @ sep @ R)" "P \<noteq> []"
  shows "prefix sep P"
proof -
  from assms(2) have "prefix sep P \<or> (\<exists>us. sep = P @ us \<and> prefix us (sep @ R))"
    by (simp only: prefix_append)
  then show ?thesis
  proof
    assume "prefix sep P"
    then show ?thesis .
  next
    assume "\<exists>us. sep = P @ us \<and> prefix us (sep @ R)"
    then obtain us where us: "sep = P @ us" "prefix us (sep @ R)" by blast
    show ?thesis
    proof (cases "us = []")
      case True
      with us(1) show ?thesis by simp
    next
      case False
      have len: "length us < length sep"
        using arg_cong[OF us(1), of length] assms(3) by simp
      from us(2) have "prefix us sep \<or> (\<exists>vs. us = sep @ vs \<and> prefix vs R)"
        by (simp only: prefix_append)
      then have "prefix us sep"
      proof
        assume "prefix us sep" then show ?thesis .
      next
        assume "\<exists>vs. us = sep @ vs \<and> prefix vs R"
        then obtain vs where "us = sep @ vs" by blast
        then have "length sep \<le> length us" by simp
        with len show ?thesis by simp
      qed
      from no_border[OF assms(1) us(1) this assms(3) False] show ?thesis ..
    qed
  qed
qed

lemma split_from_Nil: "split_from sep cur [] = [cur]"
  by (simp add: split_from.simps)

lemma split_from_match:
  "sep \<noteq> [] \<Longrightarrow> split_from sep cur (sep @ s) = cur # split_from sep [] s"
  by (subst split_from.simps) simp

lemma split_from_skip:
  "\<not> prefix sep (c # s) \<Longrightarrow> split_from sep cur (c # s) = split_from sep (cur @ [c]) s"
  by (subst split_from.simps) simp

lemma split_from_tail:
  assumes "sep \<noteq> []" "unbordered sep"
  shows "\<not> sublist sep G \<Longrightarrow> split_from sep cur (G @ sep) = [cur @ G, []]"
proof (induction G arbitrary: cur)
  case Nil
  have "split_from sep cur (sep @ []) = cur # split_from sep [] []"
    using assms(1) by (rule split_from_match)
  then show ?case by (simp add: split_from_Nil)
next
  case (Cons c G)
  have "\<not> prefix sep ((c # G) @ sep)"
  proof
    assume "prefix sep ((c # G) @ sep)"
    then have "prefix sep ((c # G) @ sep @ [])" by simp
    from prefix_across[OF assms(2) this] have "prefix sep (c # G)" by simp
    then have "sublist sep (c # G)" by (rule prefix_imp_sublist)
    with Cons.prems show False ..
  qed
  then have "split_from sep cur ((c # G) @ sep) = split_from sep (cur @ [c]) (G @ sep)"
    by (simp add: split_from_skip)
  moreover have "\<not> sublist sep G"
    using Cons.prems by (auto simp: sublist_Cons_right)
  ultimately show ?case using Cons.IH[of "cur @ [c]"] by simp
qed

lemma split_from_through:
  assumes "sep \<noteq> []" "unbordered sep" "\<not> sublist sep G"
  shows "\<exists>pre. split_from sep cur (P @ sep @ G @ sep) = pre @ [G, []]"
proof (induction P arbitrary: cur rule: length_induct)
  case (1 P)
  show ?case
  proof (cases P)
    case Nil
    have "split_from sep cur (sep @ G @ sep) = cur # split_from sep [] (G @ sep)"
      using assms(1) by (rule split_from_match)
    also have "\<dots> = [cur] @ [G, []]"
      using split_from_tail[OF assms, of "[]"] by simp
    finally show ?thesis using Nil by auto
  next
    case (Cons c P')
    show ?thesis
    proof (cases "prefix sep (P @ sep @ G @ sep)")
      case True
      have "P \<noteq> []" using Cons by simp
      from prefix_across[OF assms(2) True this] obtain P2 where P2: "P = sep @ P2"
        by (auto simp: prefix_def)
      then have "length P2 < length P" using assms(1) by simp
      with 1 obtain pre where "split_from sep [] (P2 @ sep @ G @ sep) = pre @ [G, []]"
        by blast
      moreover have "split_from sep cur (sep @ (P2 @ sep @ G @ sep)) =
          cur # split_from sep [] (P2 @ sep @ G @ sep)"
        using assms(1) by (rule split_from_match)
      ultimately have "split_from sep cur (P @ sep @ G @ sep) = (cur # pre) @ [G, []]"
        using P2 by simp
      then show ?thesis by blast
    next
      case False
      then have "split_from sep cur (c # (P' @ sep @ G @ sep)) =
          split_from sep (cur @ [c]) (P' @ sep @ G @ sep)"
        using Cons by (intro split_from_skip) simp
      moreover have "length P' < length P" using Cons by simp
      with 1 obtain pre where "split_from sep (cur @ [c]) (P' @ sep @ G @ sep) = pre @ [G, []]"
        by blast
      ultimately show ?thesis using Cons by auto
    qed
  qed
qed

lemma py_nth_second_to_last: "py_nth (pre @ [a, b]) (- 2) = Inr a"
  by (simp add: py_nth_def nth_append)

lemma trailing_count_snoc: "trailing_count t (ids @ [x]) = (if x = t then Suc (trailing_count t ids) else 0)"
  by (simp add: trailing_count_def)

lemma trailing_count_Nil: "trailing_count t [] = 0"
  by (simp add: trailing_count_def)

lemma converse_Some:
  assumes "converse fuel E g input history eos_token eos_token_id = Some (Inr ((response, h'), g'))"
  shows "\<exists>new. h' = (history @ tokenize E (input @ eos_token)) @ new @ [eos_token_id] \<and>
           global_eos_token_id E \<notin> set new \<and> eos_token \<noteq> [] \<and>
           py_nth (split_from eos_token [] (concat (map (decode E) h'))) (- 2) = Inr response"
proof -
  let ?bot = "history @ tokenize E (input @ eos_token)"
  have bot: "(if length history = 0 then tokenize E (input @ eos_token) else ?bot) = ?bot"
    by simp
  obtain r where r: "generate_sequence fuel E g ?bot (map (\<lambda>_. 1) ?bot) 1000 (global_eos_token_id E) True = Some r"
    using assms unfolding converse_def Let_def bot by (auto split: option.splits)
  obtain out g1 where out: "r = Inr (out, g1)"
    using assms r unfolding converse_def Let_def bot by (cases r) auto
  from generate_sequence_extends[OF r[unfolded out]] obtain new where
    new: "out = ?bot @ new" "global_eos_token_id E \<notin> set new"
    by blast
  have res: "ebind (py_split (concat (map (decode E) (out @ [eos_token_id]))) eos_token)
       (\<lambda>segments. ebind (py_nth segments (- 2)) (\<lambda>response. Inr ((response, out @ [eos_token_id]), g1))) =
     Inr ((response, h'), g')"
    using assms r out unfolding converse_def Let_def bot by simp
  have ne: "eos_token \<noteq> []"
    using res by (auto simp: py_split_def)
  have "ebind (py_nth (split_from eos_token [] (concat (map (decode E) (out @ [eos_token_id])))) (- 2))
       (\<lambda>response. Inr ((response, out @ [eos_token_id]), g1)) = Inr ((response, h'), g')"
    using res ne by (simp add: py_split_def)
  then have "py_nth (split_from eos_token [] (concat (map (decode E) (out @ [eos_token_id])))) (- 2) = Inr response
      \<and> h' = out @ [eos_token_id]"
    by (cases "py_nth (split_from eos_token [] (concat (map (decode E) (out @ [eos_token_id])))) (- 2)") auto
  with new ne show ?thesis by auto
qed

lemma scripted_fields:
  "tokenize scripted_env = stub_tokenize"
  "decode scripted_env = stub_decode"
  "global_eos_token_id scripted_env = 0"
  by (simp_all add: scripted_env_def global_eos_token_id_def)

lemma bordered_fields:
  "tokenize bordered_env = stub_tokenize"
  "decode bordered_env = stub_decode"
  "global_eos_token_id bordered_env = 3"
  "global_eos_token bordered_env = ''aa''"
  by (simp_all add: bordered_env_def scripted_env_def global_eos_token_id_def global_eos_token_def
      stub_decode_def)

lemma next_tokens_bordered:
  assumes "ids \<noteq> []"
  shows "next_tokens bordered_env (t # g) ids am L e d = Inr (t, g)"
  using stub_next_tokens[OF assms, of bordered_env "t # g" am L e d]
  by (auto simp: bordered_env_def scripted_env_def)

lemma turn_hi_yo:
  "converse (Suc (Suc 0)) scripted_env [2, 0] ''hi'' [] ''<|endoftext|>'' 0 =
     Some (Inr ((''yo'', [1, 0, 2, 0]), []))"
  by (simp add: converse_def Let_def scripted_fields next_tokens_scripted stub_tokenize_def
      stub_decode_def py_split_def split_from.simps py_nth_def)

lemma turn_hi_empty:
  "converse (Suc 0) scripted_env [0] ''hi'' [] ''<|endoftext|>'' 0 =
     Some (Inr (([], [1, 0, 0]), []))"
  by (simp add: converse_def Let_def scripted_fields next_tokens_scripted stub_tokenize_def
      stub_decode_def py_split_def split_from.simps py_nth_def)

lemma turn_bordered:
  "converse (Suc (Suc 0)) bordered_env [4, 3] ''x'' [] ''aa'' 3 =
     Some (Inr (([], [5, 3, 4, 3]), []))"
  by (simp add: converse_def Let_def bordered_fields next_tokens_bordered stub_tokenize_def
      stub_decode_def py_split_def split_from.simps py_nth_def)

lemma nonempty_reading_hi_yo:
  "second_to_last_nonempty_segment (concat (map stub_decode [1, 0, 2, 0])) ''<|endoftext|>'' = Inr ''hi''"
  by (simp add: second_to_last_nonempty_segment_def stub_decode_def py_split_def split_from.simps py_nth_def)

lemma turn_again:
  "converse (Suc (Suc 0)) scripted_env [2, 0] ''hi'' [1, 0, 2, 0] ''<|endoftext|>'' 0 =
     Some (Inr ((''yo'', [1, 0, 2, 0, 1, 0, 2, 0]), []))"
  by (simp add: converse_def Let_def scripted_fields next_tokens_scripted stub_tokenize_def
      stub_decode_def py_split_def split_from.simps py_nth_def)

subsection \<open>The history after a turn\<close>

text \<open>
  Claim C2 says that the history returned by a turn ends with exactly one eos id.
  \<^verbatim>\<open>converse\<close> appends the eos id unconditionally, and the loop never appends an eos
  id of its own; so the returned history is the old history, the tokens of the user
  input, the generated tokens (none of them the eos id) and one eos id. It ends with
  the eos id and is strictly longer than the old history. It ends with exactly one
  eos id when the loop generated at least one token. When the loop generates nothing
  and the user input ends with the eos id (its delimiter), the appended eos id
  follows that one, and the history ends with at least two: the counterexample is a
  turn whose first draw is the eos id.
\<close>

theorem converse_history_grows:
  assumes "converse fuel E g input history eos_token eos_token_id = Some (Inr ((response, history'), g'))"
  shows "\<exists>new. history' = history @ tokenize E (input @ eos_token) @ new @ [eos_token_id] \<and>
           global_eos_token_id E \<notin> set new \<and>
           last history' = eos_token_id \<and> length history < length history' \<and>
           (eos_token_id = global_eos_token_id E \<and> new \<noteq> [] \<longrightarrow>
              trailing_count eos_token_id history' = 1) \<and>
           (new = [] \<and> tokenize E (input @ eos_token) \<noteq> [] \<and>
              last (tokenize E (input @ eos_token)) = eos_token_id \<longrightarrow>
              2 \<le> trailing_count eos_token_id history')"
proof -
  from converse_Some[OF assms] obtain new where
    new: "history' = (history @ tokenize E (input @ eos_token)) @ new @ [eos_token_id]"
      "global_eos_token_id E \<notin> set new"
    by blast
  let ?user = "tokenize E (input @ eos_token)"
  have 1: "history' = history @ ?user @ new @ [eos_token_id]" using new(1) by simp
  have 2: "last history' = eos_token_id" using 1 by simp
  have 3: "length history < length history'" using 1 by simp
  have 4: "eos_token_id = global_eos_token_id E \<and> new \<noteq> [] \<longrightarrow>
      trailing_count eos_token_id history' = 1"
  proof
    assume that: "eos_token_id = global_eos_token_id E \<and> new \<noteq> []"
    then have "new \<noteq> []" by simp
    then obtain butl l where l: "new = butl @ [l]" by (cases new rule: rev_cases) auto
    then have ne: "l \<noteq> eos_token_id" using new(2) that by auto
    have h: "history' = ((history @ ?user @ butl) @ [l]) @ [eos_token_id]" using 1 l by simp
    have "trailing_count eos_token_id ((history @ ?user @ butl) @ [l]) = 0"
      using ne by (simp only: trailing_count_snoc if_False)
    then have "trailing_count eos_token_id (((history @ ?user @ butl) @ [l]) @ [eos_token_id]) = 1"
      by (simp only: trailing_count_snoc if_True refl One_nat_def)
    then show "trailing_count eos_token_id history' = 1" by (simp only: h)
  qed
  have 5: "new = [] \<and> ?user \<noteq> [] \<and> last ?user = eos_token_id \<longrightarrow>
      2 \<le> trailing_count eos_token_id history'"
  proof
    assume that: "new = [] \<and> ?user \<noteq> [] \<and> last ?user = eos_token_id"
    then have "?user = butlast ?user @ [eos_token_id]"
      using append_butlast_last_id[of ?user] by simp
    then have h: "history' = ((history @ butlast ?user) @ [eos_token_id]) @ [eos_token_id]"
      using 1 that by simp
    have "trailing_count eos_token_id (((history @ butlast ?user) @ [eos_token_id]) @ [eos_token_id]) =
        Suc (Suc (trailing_count eos_token_id (history @ butlast ?user)))"
      by (simp only: trailing_count_snoc if_True refl)
    then have "2 \<le> trailing_count eos_token_id (((history @ butlast ?user) @ [eos_token_id]) @ [eos_token_id])"
      by linarith
    then show "2 \<le> trailing_count eos_token_id history'" by (simp only: h)
  qed
  show ?thesis
    apply (rule exI[of _ new])
    apply (intro conjI)
    apply (rule 1)
    apply (rule new(2))
    apply (rule 2)
    apply (rule 3)
    apply (rule 4)
    apply (rule 5)
    done
qed

theorem converse_history_grows_counterexample:
  "converse (Suc 0) scripted_env [0] ''hi'' [] ''<|endoftext|>'' 0 =
     Some (Inr (([], [1, 0, 0]), [])) \<and>
   global_eos_token scripted_env = ''<|endoftext|>'' \<and> global_eos_token_id scripted_env = 0 \<and>
   trailing_count 0 [1, 0, 0] = 2"
  using turn_hi_empty
  by (simp add: trailing_count_def global_eos_token_def scripted_fields stub_decode_def)

theorem converse_history_grows_witness:
  "converse (Suc (Suc 0)) scripted_env [2, 0] ''hi'' [] ''<|endoftext|>'' 0 =
     Some (Inr ((''yo'', [1, 0, 2, 0]), [])) \<and>
   converse (Suc (Suc 0)) scripted_env [2, 0] ''hi'' [1, 0, 2, 0] ''<|endoftext|>'' 0 =
     Some (Inr ((''yo'', [1, 0, 2, 0, 1, 0, 2, 0]), [])) \<and>
   last [1, 0, 2, 0 :: nat] = 0 \<and> trailing_count 0 [1, 0, 2, 0] = 1 \<and>
   trailing_count 0 [1, 0, 2, 0, 1, 0, 2, 0] = 1 \<and>
   length [1, 0, 2, 0 :: nat] < length [1, 0, 2, 0, 1, 0, 2, 0 :: nat]"
  using converse_history_grows[OF turn_hi_yo] converse_history_grows[OF turn_again]
    turn_hi_yo turn_again
  by (simp add: trailing_count_def)

subsection \<open>The response of a turn\<close>

text \<open>
  Claim C4 says that the response is the second-to-last non-empty segment of the
  decoded history split on the eos string, and that it is the generated text
  whenever that text does not contain the eos string. The code takes
  \<^verbatim>\<open>split(eos_token)[-2]\<close>: the second-to-last segment, empty segments counted. The
  counterexample has two parts. In an ordinary turn ("hi", answered "yo") the
  second-to-last of the non-empty segments is the user's text, not the response. And
  with an eos string that overlaps itself ("aa"), a generated text "a" does not
  contain the eos string, yet the response is empty.

  What holds: the response is the second-to-last segment of the split; and when the
  eos string is unbordered, is the decoding of the eos id, and the tokens of the user
  input end with the eos id, then the response is the decoded generated text
  whenever that text does not contain the eos string.
\<close>

theorem converse_response:
  assumes "converse fuel E g input history eos_token eos_token_id =
             Some (Inr ((response, history'), g'))"
    and "unbordered eos_token"
    and "decode E eos_token_id = eos_token"
    and "tokenize E (input @ eos_token) = user @ [eos_token_id]"
  shows "ebind (py_split (concat (map (decode E) history')) eos_token)
           (\<lambda>segments. py_nth segments (- 2)) = Inr response \<and>
         (\<exists>new. history' = history @ user @ [eos_token_id] @ new @ [eos_token_id] \<and>
            (\<not> sublist eos_token (concat (map (decode E) new)) \<longrightarrow>
               response = concat (map (decode E) new)))"
proof -
  from converse_Some[OF assms(1)] obtain new where
    h: "history' = (history @ tokenize E (input @ eos_token)) @ new @ [eos_token_id]"
    and ne: "eos_token \<noteq> []"
    and r: "py_nth (split_from eos_token [] (concat (map (decode E) history'))) (- 2) = Inr response"
    by blast
  have 1: "ebind (py_split (concat (map (decode E) history')) eos_token)
           (\<lambda>segments. py_nth segments (- 2)) = Inr response"
    using ne r by (simp add: py_split_def)
  have 2: "history' = history @ user @ [eos_token_id] @ new @ [eos_token_id]"
    using h assms(4) by simp
  let ?P = "concat (map (decode E) (history @ user))"
  let ?G = "concat (map (decode E) new)"
  have dec: "concat (map (decode E) history') = ?P @ eos_token @ ?G @ eos_token"
    unfolding 2 using assms(3) by simp
  have 3: "\<not> sublist eos_token ?G \<longrightarrow> response = ?G"
  proof
    assume "\<not> sublist eos_token ?G"
    from split_from_through[OF ne assms(2) this, of "[]" ?P] obtain pre where
      "split_from eos_token [] (?P @ eos_token @ ?G @ eos_token) = pre @ [?G, []]"
      by blast
    then have "py_nth (split_from eos_token [] (concat (map (decode E) history'))) (- 2) = Inr ?G"
      unfolding dec by (simp only: py_nth_second_to_last)
    with r show "response = ?G" by simp
  qed
  show ?thesis
    apply (rule conjI)
    apply (rule 1)
    apply (rule exI[of _ new])
    apply (rule conjI)
    apply (rule 2)
    apply (rule 3)
    done
qed

theorem converse_response_counterexample:
  "converse (Suc (Suc 0)) scripted_env [2, 0] ''hi'' [] ''<|endoftext|>'' 0 =
     Some (Inr ((''yo'', [1, 0, 2, 0]), [])) \<and>
   second_to_last_nonempty_segment (concat (map (decode scripted_env) [1, 0, 2, 0])) ''<|endoftext|>'' =
     Inr ''hi'' \<and>
   converse (Suc (Suc 0)) bordered_env [4, 3] ''x'' [] (global_eos_token bordered_env)
       (global_eos_token_id bordered_env) =
     Some (Inr (([], [5, 3, 4, 3]), [])) \<and>
   global_eos_token bordered_env = ''aa'' \<and>
   concat (map (decode bordered_env) [4]) = ''a'' \<and>
   \<not> sublist ''aa'' ''a''"
  using turn_hi_yo turn_bordered nonempty_reading_hi_yo
  by (simp add: scripted_fields bordered_fields stub_decode_def sublist_code)

theorem converse_response_witness:
  "converse (Suc (Suc 0)) scripted_env [2, 0] ''hi'' [] ''<|endoftext|>'' 0 =
     Some (Inr ((''yo'', [1, 0, 2, 0]), [])) \<and>
   unbordered ''<|endoftext|>'' \<and>
   decode scripted_env 0 = ''<|endoftext|>'' \<and>
   tokenize scripted_env (''hi'' @ ''<|endoftext|>'') = [1] @ [0] \<and>
   \<not> sublist ''<|endoftext|>'' (concat (map (decode scripted_env) [2])) \<and>
   ''yo'' = concat (map (decode scripted_env) [2])"
proof -
  have d: "decode scripted_env 0 = ''<|endoftext|>''"
    by (simp add: scripted_fields stub_decode_def)
  have t: "tokenize scripted_env (''hi'' @ ''<|endoftext|>'') = [1] @ [0]"
    by (simp add: scripted_fields stub_tokenize_def)
  have s: "\<not> sublist ''<|endoftext|>'' (concat (map (decode scripted_env) [2]))"
    by (simp add: scripted_fields stub_decode_def sublist_code)
  have y: "''yo'' = concat (map (decode scripted_env) [2])"
    by (simp add: scripted_fields stub_decode_def)
  from converse_response[OF turn_hi_yo unbordered_endoftext d t] turn_hi_yo unbordered_endoftext d t s y
  show ?thesis by blast
qed

end
